theory Spec2Isabelle
  imports Main
begin

section \<open>Character classes of Python's \<open>re\<close> module\<close>

text \<open>
  The lexer's rules are Python regular expressions over \<open>str\<close>, compiled with
  \<open>re.X | re.M\<close>. Source text is a \<open>string\<close>; a character is a code point
  below 256. The classes below are Python's classes on that range:
  \<open>\s\<close> and \<open>str.strip\<close> use \<open>is_space\<close>, \<open>\d\<close> is \<open>is_decimal\<close>, \<open>\w\<close> is
  \<open>is_word\<close> (alphanumeric or underscore), and \<open>.\<close> is any character but the line
  feed (no \<open>re.S\<close>).
\<close>

definition code :: "char \<Rightarrow> nat" where
  "code c = of_char c"

definition is_newline :: "char \<Rightarrow> bool" where
  "is_newline c = (code c = 10)"

definition is_space :: "char \<Rightarrow> bool" where
  "is_space c = (let n = code c in
     (9 \<le> n \<and> n \<le> 13) \<or> (28 \<le> n \<and> n \<le> 32) \<or> n = 133 \<or> n = 160)"

definition is_decimal :: "char \<Rightarrow> bool" where
  "is_decimal c = (let n = code c in 48 \<le> n \<and> n \<le> 57)"

definition is_alpha :: "char \<Rightarrow> bool" where
  "is_alpha c = (let n = code c in
     (65 \<le> n \<and> n \<le> 90) \<or> (97 \<le> n \<and> n \<le> 122) \<or> n = 170 \<or> n = 181 \<or> n = 186 \<or>
     (192 \<le> n \<and> n \<le> 214) \<or> (216 \<le> n \<and> n \<le> 246) \<or> (248 \<le> n \<and> n \<le> 255))"

definition is_numeric :: "char \<Rightarrow> bool" where
  "is_numeric c = (let n = code c in
     (48 \<le> n \<and> n \<le> 57) \<or> n = 178 \<or> n = 179 \<or> n = 185 \<or> (188 \<le> n \<and> n \<le> 190))"

definition is_word :: "char \<Rightarrow> bool" where
  "is_word c = (is_alpha c \<or> is_numeric c \<or> code c = 95)"

text \<open>\<open>[^\S\n]\<close>: white space other than the line feed.\<close>

definition is_blank :: "char \<Rightarrow> bool" where
  "is_blank c = (is_space c \<and> \<not> is_newline c)"

text \<open>\<open>[^\n]\<close>, and \<open>.\<close> without \<open>re.S\<close>.\<close>

definition not_newline :: "char \<Rightarrow> bool" where
  "not_newline c = (\<not> is_newline c)"

section \<open>Matching a pattern at a position\<close>

text \<open>
  A pattern is modelled by the function that Python's backtracking matcher computes for
  it: given the whole subject string and a position, the length of the match the pattern
  finds when anchored at that position (its first match in backtracking order), or
  \<open>None\<close>. The whole string is passed because \<open>^\<close>, \<open>$\<close> and the look-behind
  \<open>(?<=:=)\<close> inspect the text around the position.
\<close>

type_synonym pattern = "string \<Rightarrow> nat \<Rightarrow> nat option"

text \<open>The character at position \<open>i\<close> exists and is in the class \<open>P\<close>.\<close>

definition chr_at :: "(char \<Rightarrow> bool) \<Rightarrow> string \<Rightarrow> nat \<Rightarrow> bool" where
  "chr_at P s i = (case drop i s of [] \<Rightarrow> False | c # _ \<Rightarrow> P c)"

text \<open>A greedy run \<open>[P]*\<close>: the number of consecutive characters of class \<open>P\<close> from \<open>i\<close>.\<close>

definition run :: "(char \<Rightarrow> bool) \<Rightarrow> string \<Rightarrow> nat \<Rightarrow> nat" where
  "run P s i = length (takeWhile P (drop i s))"

text \<open>The literal text \<open>w\<close> stands at position \<open>i\<close>.\<close>

definition lit :: "string \<Rightarrow> string \<Rightarrow> nat \<Rightarrow> bool" where
  "lit w s i = (take (length w) (drop i s) = w)"

text \<open>\<open>$\<close> under \<open>re.M\<close>: the end of the string, or just before a line feed.\<close>

definition at_eol :: "string \<Rightarrow> nat \<Rightarrow> bool" where
  "at_eol s i = (case drop i s of [] \<Rightarrow> True | c # _ \<Rightarrow> is_newline c)"

text \<open>\<open>^\<close> under \<open>re.M\<close>: the real start of the string, or just after a line feed.\<close>

definition at_bol :: "string \<Rightarrow> nat \<Rightarrow> bool" where
  "at_bol s i = (case i of 0 \<Rightarrow> True | Suc j \<Rightarrow> chr_at is_newline s j)"

text \<open>A pattern that is one literal text, such as \<open>\(\<close>, \<open>::\<close> or \<open>:=\<close>.\<close>

definition re_literal :: "string \<Rightarrow> pattern" where
  "re_literal w s i = (if lit w s i then Some (length w) else None)"

subsection \<open>The patterns of \<open>common_rules\<close>\<close>

text \<open>COMMENT, \<^verbatim>\<open>\#[^\n]*$\<close>: the greedy run stops at a line feed or at the end, where
  \<open>$\<close> holds.\<close>

definition re_COMMENT :: pattern where
  "re_COMMENT s i =
     (if lit ''#'' s i \<and> at_eol s (i + 1 + run not_newline s (i + 1))
      then Some (1 + run not_newline s (i + 1)) else None)"

text \<open>WS, \<^verbatim>\<open>[^\S\n]+\<close>.\<close>

definition re_WS :: pattern where
  "re_WS s i = (let n = run is_blank s i in if 0 < n then Some n else None)"

text \<open>NEWLINE, \<^verbatim>\<open>\n\<close>.\<close>

definition re_NEWLINE :: pattern where
  "re_NEWLINE s i = (if chr_at is_newline s i then Some 1 else None)"

text \<open>MAPPING, \<^verbatim>\<open>[1*][1*]\<close>.\<close>

definition is_mapping_char :: "char \<Rightarrow> bool" where
  "is_mapping_char c = (c = CHR ''1'' \<or> c = CHR ''*'')"

definition re_MAPPING :: pattern where
  "re_MAPPING s i =
     (if chr_at is_mapping_char s i \<and> chr_at is_mapping_char s (i + 1) then Some 2 else None)"

text \<open>ICONST, \<^verbatim>\<open>\d+(?![eE.0-9])\<close>: after the greedy run of digits the negative
  look-ahead is tried; giving back digits leaves a digit under the look-ahead, so only
  the full run can match.\<close>

definition is_iconst_stop :: "char \<Rightarrow> bool" where
  "is_iconst_stop c = (c = CHR ''e'' \<or> c = CHR ''E'' \<or> c = CHR ''.'' \<or> is_decimal c)"

definition re_ICONST :: pattern where
  "re_ICONST s i = (let n = run is_decimal s i in
     if 0 < n \<and> \<not> chr_at is_iconst_stop s (i + n) then Some n else None)"

text \<open>\<open>re_intpart\<close>, \<^verbatim>\<open>(?:[0-9](?:[0-9_]*[0-9])?)\<close>: one digit, then the greedy run of
  digits and underscores, given back up to its last digit.\<close>

definition is_decdigit_us :: "char \<Rightarrow> bool" where
  "is_decdigit_us c = (is_decimal c \<or> c = CHR ''_'')"

definition re_intpart :: pattern where
  "re_intpart s i =
     (if chr_at is_decimal s i
      then Some (1 + length (dropWhile (\<lambda>c. c = CHR ''_'')
                              (rev (takeWhile is_decdigit_us (drop (i + 1) s)))))
      else None)"

text \<open>\<open>re_exppart\<close>, \<^verbatim>\<open>(?:[eE](?:[\+\-])?{int})\<close>.\<close>

definition is_exp_char :: "char \<Rightarrow> bool" where
  "is_exp_char c = (c = CHR ''e'' \<or> c = CHR ''E'')"

definition is_sign_char :: "char \<Rightarrow> bool" where
  "is_sign_char c = (c = CHR ''+'' \<or> c = CHR ''-'')"

definition re_exppart :: pattern where
  "re_exppart s i =
     (if chr_at is_exp_char s i
      then (if chr_at is_sign_char s (i + 1)
            then map_option (\<lambda>n. 2 + n) (re_intpart s (i + 2))
            else map_option (\<lambda>n. 1 + n) (re_intpart s (i + 1)))
      else None)"

text \<open>The first FCONST rule,
  \<^verbatim>\<open>(?: \d+ (?:\.\d*)? | \. \d+ ) {exppart}\<close>: the exponent can only start where the
  greedy digit runs end.\<close>

definition re_FCONST_exp :: pattern where
  "re_FCONST_exp s i = (let n = run is_decimal s i in
     if 0 < n then
       (let m = (if lit ''.'' s (i + n) then n + 1 + run is_decimal s (i + n + 1) else n)
        in map_option (\<lambda>e. m + e) (re_exppart s (i + m)))
     else if lit ''.'' s i then
       (let m = run is_decimal s (i + 1)
        in if 0 < m then map_option (\<lambda>e. 1 + m + e) (re_exppart s (i + 1 + m)) else None)
     else None)"

text \<open>The second FCONST rule, \<^verbatim>\<open>(?: \d+\.(?!\.)\d* | \.\d+)\<close>.\<close>

definition re_FCONST :: pattern where
  "re_FCONST s i = (let n = run is_decimal s i in
     if 0 < n then
       (if lit ''.'' s (i + n) \<and> \<not> lit ''.'' s (i + n + 1)
        then Some (n + 1 + run is_decimal s (i + n + 1)) else None)
     else if lit ''.'' s i then
       (let m = run is_decimal s (i + 1) in if 0 < m then Some (1 + m) else None)
     else None)"

text \<open>STRING. The opening quote \<open>Q\<close> is \<^verbatim>\<open>'\<close> or a dollar quote \<open>re_dquote\<close>,
  \<^verbatim>\<open>\$([A-Za-z\200-\377_][0-9]*)*\$\<close>: a dollar, a greedy tag of letters and digits that
  is empty or starts with a letter, and a dollar. The body \<^verbatim>\<open>.*?\<close> is lazy and has no
  line feed; the back-reference \<^verbatim>\<open>(?P=Q)\<close> closes the string at the first place where the
  text of \<open>Q\<close> stands again.\<close>

definition is_tag_letter :: "char \<Rightarrow> bool" where
  "is_tag_letter c = (let n = code c in
     (65 \<le> n \<and> n \<le> 90) \<or> (97 \<le> n \<and> n \<le> 122) \<or> (128 \<le> n \<and> n \<le> 255) \<or> n = 95)"

definition is_tag_char :: "char \<Rightarrow> bool" where
  "is_tag_char c = (is_tag_letter c \<or> is_decimal c)"

definition re_quote :: pattern where
  "re_quote s i =
     (if chr_at (\<lambda>c. code c = 39) s i then Some 1
      else if lit ''$'' s i then
        (let t = run is_tag_char s (i + 1) in
         if (t = 0 \<or> chr_at is_tag_letter s (i + 1)) \<and> lit ''$'' s (i + 1 + t)
         then Some (t + 2) else None)
      else None)"

fun lazy_dots_until :: "string \<Rightarrow> string \<Rightarrow> nat option" where
  "lazy_dots_until w [] = (if w = [] then Some 0 else None)"
| "lazy_dots_until w (c # cs) =
     (if take (length w) (c # cs) = w then Some 0
      else if is_newline c then None
      else map_option Suc (lazy_dots_until w cs))"

definition re_STRING :: pattern where
  "re_STRING s i =
     (case re_quote s i of
        None \<Rightarrow> None
      | Some q \<Rightarrow>
          (case lazy_dots_until (take q (drop i s)) (drop (i + q) s) of
             None \<Rightarrow> None
           | Some j \<Rightarrow> Some (q + j + q)))"

text \<open>IDENT, \<^verbatim>\<open>(?:[^\W\d]|\$)(?:\w|\$)*\<close>.\<close>

definition is_ident_start :: "char \<Rightarrow> bool" where
  "is_ident_start c = ((is_word c \<and> \<not> is_decimal c) \<or> c = CHR ''$'')"

definition is_ident_char :: "char \<Rightarrow> bool" where
  "is_ident_char c = (is_word c \<or> c = CHR ''$'')"

definition re_IDENT :: pattern where
  "re_IDENT s i =
     (if chr_at is_ident_start s i then Some (1 + run is_ident_char s (i + 1)) else None)"

subsection \<open>The patterns of the \<open>STATE_RAW_STRING\<close> rules\<close>

text \<open>The look-behind \<^verbatim>\<open>(?<=:=)\<close>.\<close>

definition after_turnstile :: "string \<Rightarrow> nat \<Rightarrow> bool" where
  "after_turnstile s i = (2 \<le> i \<and> lit '':='' s (i - 2))"

text \<open>NEWLINE, \<^verbatim>\<open>(?<=:=)\s*\n\<close>: \<open>\s\<close> matches line feeds too, so the greedy run of
  white space is given back up to its last line feed.\<close>

definition re_RAW_NEWLINE :: pattern where
  "re_RAW_NEWLINE s i =
     (if after_turnstile s i
      then (let n = length (dropWhile not_newline (rev (takeWhile is_space (drop i s))))
            in if 0 < n then Some n else None)
      else None)"

text \<open>RAWSTRING, \<^verbatim>\<open>(?<=:=)[^\n]+?$\<close>: the lazy run grows until \<open>$\<close> holds, which is at
  the end of the line.\<close>

definition re_RAW_REST :: pattern where
  "re_RAW_REST s i =
     (if after_turnstile s i
      then (let n = run not_newline s i in if 0 < n then Some n else None)
      else None)"

text \<open>RAWSTRING, \<^verbatim>\<open>^[^\S\n]*\n\<close>: a blank line.\<close>

definition re_RAW_BLANK_LINE :: pattern where
  "re_RAW_BLANK_LINE s i =
     (if at_bol s i \<and> chr_at is_newline s (i + run is_blank s i)
      then Some (run is_blank s i + 1) else None)"

text \<open>RAWLEADWS, \<^verbatim>\<open>^[^\S\n]+\<close>.\<close>

definition re_RAWLEADWS :: pattern where
  "re_RAWLEADWS s i =
     (if at_bol s i \<and> 0 < run is_blank s i then Some (run is_blank s i) else None)"

text \<open>RAWSTRING, \<^verbatim>\<open>.*?(?:\n|.$)\<close>: the lazy run stops at the first place where a line
  feed follows, or where one more character ends the line: at a line feed the match is
  that line feed, otherwise it is the rest of the line without its line feed.\<close>

definition re_RAW_LINE :: pattern where
  "re_RAW_LINE s i = (let n = run not_newline s i in
     if 0 < n then Some n else if chr_at is_newline s i then Some 1 else None)"

section \<open>Rules and lexer states\<close>

definition STATE_KEEP :: nat where "STATE_KEEP = 0"
definition STATE_WS_SENSITIVE :: nat where "STATE_WS_SENSITIVE = 1"
definition STATE_WS_INSENSITIVE :: nat where "STATE_WS_INSENSITIVE = 2"
definition STATE_RAW_STRING :: nat where "STATE_RAW_STRING = 3"

record rule =
  token :: string
  next_state :: nat
  regexp :: pattern

text \<open>
  \<open>keyword_rules\<close> builds one rule per entry \<open>(val, tok)\<close> of \<open>edge_schema_keywords\<close>, with
  token \<open>tok[0]\<close> and pattern \<open>lexer.group(val)\<close>. Neither the keyword table (module
  \<open>keywords\<close>) nor \<open>lexer.group\<close> (module \<open>edgedb.lang.common.lexer\<close>) is part of the
  sources at hand, so both are parameters of the model: the table is an association list
  in the table's iteration order, and \<open>group\<close> maps a spelling to its pattern.
\<close>

type_synonym keyword_table = "(string \<times> string \<times> string) list"

definition keyword_rules :: "(string \<Rightarrow> pattern) \<Rightarrow> keyword_table \<Rightarrow> rule list" where
  "keyword_rules group_re edge_schema_keywords =
     map (\<lambda>(val, tok). \<lparr>token = fst tok, next_state = STATE_KEEP, regexp = group_re val\<rparr>)
       edge_schema_keywords"

definition common_rules :: "(string \<Rightarrow> pattern) \<Rightarrow> keyword_table \<Rightarrow> rule list" where
  "common_rules group_re edge_schema_keywords =
     keyword_rules group_re edge_schema_keywords @
     [\<lparr>token = ''COMMENT'', next_state = STATE_KEEP, regexp = re_COMMENT\<rparr>,
      \<lparr>token = ''WS'', next_state = STATE_KEEP, regexp = re_WS\<rparr>,
      \<lparr>token = ''NEWLINE'', next_state = STATE_KEEP, regexp = re_NEWLINE\<rparr>,
      \<lparr>token = ''LPAREN'', next_state = STATE_WS_INSENSITIVE, regexp = re_literal ''(''\<rparr>,
      \<lparr>token = ''RPAREN'', next_state = STATE_WS_SENSITIVE, regexp = re_literal '')''\<rparr>,
      \<lparr>token = ''LSBRACKET'', next_state = STATE_WS_INSENSITIVE, regexp = re_literal ''[''\<rparr>,
      \<lparr>token = ''RSBRACKET'', next_state = STATE_WS_SENSITIVE, regexp = re_literal '']''\<rparr>,
      \<lparr>token = ''LCBRACKET'', next_state = STATE_WS_INSENSITIVE, regexp = re_literal ''{''\<rparr>,
      \<lparr>token = ''RCBRACKET'', next_state = STATE_WS_SENSITIVE, regexp = re_literal ''}''\<rparr>,
      \<lparr>token = ''COMMA'', next_state = STATE_KEEP, regexp = re_literal '',''\<rparr>,
      \<lparr>token = ''DOUBLECOLON'', next_state = STATE_KEEP, regexp = re_literal ''::''\<rparr>,
      \<lparr>token = ''TURNSTILE'', next_state = STATE_RAW_STRING, regexp = re_literal '':=''\<rparr>,
      \<lparr>token = ''COLON'', next_state = STATE_KEEP, regexp = re_literal '':''\<rparr>,
      \<lparr>token = ''ARROW'', next_state = STATE_KEEP, regexp = re_literal ''->''\<rparr>,
      \<lparr>token = ''MAPPING'', next_state = STATE_KEEP, regexp = re_MAPPING\<rparr>,
      \<lparr>token = ''ICONST'', next_state = STATE_KEEP, regexp = re_ICONST\<rparr>,
      \<lparr>token = ''FCONST'', next_state = STATE_KEEP, regexp = re_FCONST_exp\<rparr>,
      \<lparr>token = ''FCONST'', next_state = STATE_KEEP, regexp = re_FCONST\<rparr>,
      \<lparr>token = ''DOT'', next_state = STATE_KEEP, regexp = re_literal ''.''\<rparr>,
      \<lparr>token = ''STRING'', next_state = STATE_KEEP, regexp = re_STRING\<rparr>,
      \<lparr>token = ''IDENT'', next_state = STATE_KEEP, regexp = re_IDENT\<rparr>]"

definition raw_string_rules :: "rule list" where
  "raw_string_rules =
     [\<lparr>token = ''NEWLINE'', next_state = STATE_KEEP, regexp = re_RAW_NEWLINE\<rparr>,
      \<lparr>token = ''RAWSTRING'', next_state = STATE_WS_SENSITIVE, regexp = re_RAW_REST\<rparr>,
      \<lparr>token = ''RAWSTRING'', next_state = STATE_KEEP, regexp = re_RAW_BLANK_LINE\<rparr>,
      \<lparr>token = ''RAWLEADWS'', next_state = STATE_KEEP, regexp = re_RAWLEADWS\<rparr>,
      \<lparr>token = ''RAWSTRING'', next_state = STATE_KEEP, regexp = re_RAW_LINE\<rparr>]"

text \<open>The dictionary \<open>states\<close>; a state that is not a key has no rule list.\<close>

definition states :: "(string \<Rightarrow> pattern) \<Rightarrow> keyword_table \<Rightarrow> nat \<Rightarrow> rule list option" where
  "states group_re edge_schema_keywords st =
     (if st = STATE_WS_SENSITIVE then Some (common_rules group_re edge_schema_keywords)
      else if st = STATE_WS_INSENSITIVE then Some (common_rules group_re edge_schema_keywords)
      else if st = STATE_RAW_STRING then Some raw_string_rules
      else None)"

text \<open>
  Modelled from the spec: the combined matcher \<open>re_states\<close> of a state is compiled by
  the base class \<open>lexer.Lexer\<close>, which is not part of the sources at hand. The spec has it
  try the rules strictly in declaration order at the scan position, the first rule whose
  pattern matches winning (not the longest match), with a synthetic error alternative
  that matches any single character no rule consumes. \<open>first_match\<close> is that dispatch;
  \<open>None\<close> is the error alternative.
\<close>

fun first_match :: "rule list \<Rightarrow> string \<Rightarrow> nat \<Rightarrow> (rule \<times> nat) option" where
  "first_match [] s i = None"
| "first_match (r # rs) s i =
     (case regexp r s i of
        Some n \<Rightarrow> Some (r, n)
      | None \<Rightarrow> first_match rs s i)"

section \<open>Tokens and the lexer object\<close>

record position =
  line :: int
  column :: int

text \<open>A token is an \<open>xvalue\<close>: its value and the attributes \<open>type\<close>, \<open>text\<close>, \<open>start\<close>
  and \<open>end\<close> (the attribute \<open>filename\<close> is the same for every token and is left out).\<close>

record token =
  tok_value :: string
  tok_type :: string
  tok_text :: string
  tok_start :: position
  tok_end :: position

text \<open>The attributes of the lexer object: \<open>lstate\<close> is \<open>_state\<close> and \<open>lnext_state\<close> is
  \<open>_next_state\<close>; \<open>self.end\<close> is the length of \<open>inputstr\<close>; \<open>colno\<close> is \<open>self.column\<close>.\<close>

record lexer =
  inputstr :: string
  start :: nat
  lineno :: int
  colno :: int
  lstate :: nat
  lnext_state :: "nat option"
  indent :: "int list"
  logical_line_started :: bool

datatype error =
    EdgeIndentationError string int int
  | UnknownTokenError string int int
  | IndexError
  | KeyError

text \<open>Every token the generator yields is recorded with the indent stack as it is at
  that \<open>yield\<close>, the moment the consumer receives the token.\<close>

type_synonym event = "token \<times> int list"

definition NL :: string where "NL = ''NEWLINE''"

definition MULTILINE_TOKENS :: "string set" where
  "MULTILINE_TOKENS = {''STRING'', ''RAWSTRING''}"

text \<open>
  Modelled from the spec: \<open>token_from_text\<close> belongs to the base class \<open>lexer.Lexer\<close>,
  which is not part of the sources at hand. The spec has positions 1-based and advanced
  as text is consumed, including the line feeds inside multi-line tokens: a token of kind
  \<open>NL\<close> starts the next line, a token of \<open>MULTILINE_TOKENS\<close> that holds line feeds moves
  to the line and column after the last of them, any other token advances the column by
  its length; the cursor \<open>start\<close> moves past the text.
\<close>

definition token_from_text :: "lexer \<Rightarrow> string \<Rightarrow> string \<Rightarrow> token \<times> lexer" where
  "token_from_text lx rule_token txt =
     (let start_pos = \<lparr>line = lineno lx, column = colno lx\<rparr>;
          lx1 = (if rule_token = NL then lx\<lparr>lineno := lineno lx + 1, colno := 1\<rparr>
                 else if rule_token \<in> MULTILINE_TOKENS \<and> 0 < length (filter is_newline txt)
                 then lx\<lparr>lineno := lineno lx + int (length (filter is_newline txt)),
                         colno := int (length (takeWhile not_newline (rev txt))) + 1\<rparr>
                 else lx\<lparr>colno := colno lx + int (length txt)\<rparr>);
          lx2 = lx1\<lparr>start := start lx1 + length txt\<rparr>;
          end_pos = \<lparr>line = lineno lx2, column = colno lx2\<rparr>
      in (\<lparr>tok_value = txt, tok_type = rule_token, tok_text = txt,
           tok_start = start_pos, tok_end = end_pos\<rparr>, lx2))"

text \<open>\<open>token.attrs[pos]\<close> for \<open>pos\<close> one of \<open>'start'\<close> and \<open>'end'\<close>.\<close>

definition attrs_pos :: "token \<Rightarrow> string \<Rightarrow> position" where
  "attrs_pos tok pos = (if pos = ''end'' then tok_end tok else tok_start tok)"

definition insert_token :: "string \<Rightarrow> token \<Rightarrow> string \<Rightarrow> token" where
  "insert_token toktype tok pos =
     \<lparr>tok_value = '''', tok_type = toktype, tok_text = '''',
      tok_start = attrs_pos tok pos, tok_end = attrs_pos tok pos\<rparr>"

section \<open>The layout synthesizer: \<open>token_generator\<close>\<close>

text \<open>
  The two unindent loops of \<open>token_generator\<close> (one for code, with \<open>pos = 'start'\<close>, one
  for raw strings, with \<open>pos = 'end'\<close>):
  \<^verbatim>\<open>
  while self.indent[-1] > cur_indent:
      self.indent.pop()
      if self.indent[-1] < cur_indent:
          raise EdgeIndentationError('Incorrect unindent at {position}', ...)
      yield self.insert_token('DEDENT', token, pos)
  \<close>
  The result is the tokens yielded, the lexer as the loop leaves it, and the exception
  raised, if any. Reading \<open>self.indent[-1]\<close> on an empty list raises \<open>IndexError\<close>.
\<close>

function unindent :: "lexer \<Rightarrow> int \<Rightarrow> token \<Rightarrow> string \<Rightarrow> event list \<times> lexer \<times> error option" where
  "unindent lx cur_indent tok pos =
     (if indent lx = [] then ([], lx, Some IndexError)
      else if last (indent lx) > cur_indent then
        (let lx1 = lx\<lparr>indent := butlast (indent lx)\<rparr> in
         if indent lx1 = [] then ([], lx1, Some IndexError)
         else if last (indent lx1) < cur_indent then
           ([], lx1, Some (EdgeIndentationError ''Incorrect unindent at {position}''
                             (line (attrs_pos tok pos)) (column (attrs_pos tok pos))))
         else
           (case unindent lx1 cur_indent tok pos of
              (evs, lx2, err) \<Rightarrow> ((insert_token ''DEDENT'' tok pos, indent lx1) # evs, lx2, err)))
      else ([], lx, None))"
  by pat_completeness auto
termination
  by (relation "measure (\<lambda>(lx, cur_indent, tok, pos). length (indent lx))") auto

text \<open>\<open>tok_type in {'NEWLINE', 'WS', 'COMMENT'}\<close>.\<close>

definition is_layout_type :: "string \<Rightarrow> bool" where
  "is_layout_type ty = (ty = ''NEWLINE'' \<or> ty = ''WS'' \<or> ty = ''COMMENT'')"

text \<open>\<open>str.strip\<close>.\<close>

definition strip :: "string \<Rightarrow> string" where
  "strip s = rev (dropWhile is_space (rev (dropWhile is_space s)))"

text \<open>The branch \<open># handle indentation\<close>, entered in \<open>STATE_WS_SENSITIVE\<close> outside a
  logical line on a token that is not NEWLINE, WS or COMMENT.\<close>

definition indent_code :: "lexer \<Rightarrow> token \<Rightarrow> event list \<times> lexer \<times> error option" where
  "indent_code lx tok =
     (if indent lx = [] then ([], lx, Some IndexError)
      else
        (let last_indent = last (indent lx);
             cur_indent = column (tok_start tok) - 1
         in if cur_indent > last_indent then
              (let lx1 = lx\<lparr>indent := indent lx @ [cur_indent]\<rparr>
               in ([(insert_token ''INDENT'' tok ''start'', indent lx1)], lx1, None))
            else if cur_indent < last_indent then unindent lx cur_indent tok ''start''
            else ([], lx, None)))"

text \<open>The branch \<open># indentation of raw strings\<close>, entered in \<open>STATE_RAW_STRING\<close>. It
  also returns the token, whose type the unindent case alters to \<open>WS\<close>.\<close>

definition indent_raw :: "lexer \<Rightarrow> token \<Rightarrow> event list \<times> lexer \<times> token \<times> error option" where
  "indent_raw lx tok =
     (if indent lx = [] then ([], lx, tok, Some IndexError)
      else
        (let last_indent = last (indent lx);
             cur_indent = int (length (tok_value tok))
         in if \<not> logical_line_started lx \<and> tok_type tok \<noteq> ''NEWLINE'' then
              (if tok_type tok = ''RAWLEADWS'' \<and> cur_indent > last_indent then
                 (let lx1 = lx\<lparr>indent := indent lx @ [cur_indent]\<rparr>
                  in ([(insert_token ''INDENT'' tok ''end'', indent lx1)], lx1, tok, None))
               else if strip (tok_value tok) \<noteq> [] then
                 ([], lx, tok, Some (EdgeIndentationError ''Incorrect indentation at {position}''
                                      (line (tok_end tok)) (column (tok_end tok))))
               else ([], lx, tok, None))
            else if tok_type tok = ''RAWLEADWS'' \<and> cur_indent < last_indent then
              (case unindent lx cur_indent tok ''end'' of
                 (evs, lx1, err) \<Rightarrow>
                   (case err of
                      Some e \<Rightarrow> ((insert_token ''NL'' tok ''start'', indent lx) # evs, lx1, tok, Some e)
                    | None \<Rightarrow>
                        ((insert_token ''NL'' tok ''start'', indent lx) # evs,
                         lx1\<lparr>lnext_state := Some STATE_WS_SENSITIVE\<rparr>,
                         tok\<lparr>tok_type := ''WS''\<rparr>, None)))
            else ([], lx, tok, None)))"

definition handle_indentation :: "lexer \<Rightarrow> token \<Rightarrow> event list \<times> lexer \<times> token \<times> error option" where
  "handle_indentation lx tok =
     (if lstate lx = STATE_WS_SENSITIVE \<and> \<not> logical_line_started lx \<and>
         \<not> is_layout_type (tok_type tok)
      then (case indent_code lx tok of (evs, lx1, err) \<Rightarrow> (evs, lx1, tok, err))
      else if lstate lx = STATE_RAW_STRING then indent_raw lx tok
      else ([], lx, tok, None))"

text \<open>
  \<open>token_generator\<close>: the indentation branches, then \<open># handle logical newline\<close>, then
  the token itself. The local \<open>tok_type\<close> is read before the branches, so it keeps the
  token's original type when the raw-string unindent has altered the token.
\<close>

definition token_generator :: "lexer \<Rightarrow> token \<Rightarrow> event list \<times> lexer \<times> error option" where
  "token_generator lx tok =
     (let ty = tok_type tok in
      case handle_indentation lx tok of
        (evs, lx1, tok1, err) \<Rightarrow>
          (case err of
             Some e \<Rightarrow> (evs, lx1, Some e)
           | None \<Rightarrow>
               if logical_line_started lx1 \<and>
                  (lstate lx1 = STATE_WS_SENSITIVE \<or> lstate lx1 = STATE_RAW_STRING) \<and>
                  ty = ''NEWLINE''
               then (evs @ [(insert_token ''NL'' tok1 ''start'', indent lx1), (tok1, indent lx1)],
                     lx1\<lparr>logical_line_started := False\<rparr>, None)
               else if \<not> is_layout_type ty
               then (evs @ [(tok1, indent lx1)], lx1\<lparr>logical_line_started := True\<rparr>, None)
               else (evs @ [(tok1, indent lx1)], lx1, None)))"

section \<open>The scanner driver: \<open>lex\<close>\<close>

text \<open>
  \<open>get_eof_tokens\<close>. \<open>token_from_text('NL', '')\<close> and \<open>token_from_text('DEDENT', '')\<close>
  make tokens with empty text at the current position.
\<close>

function eof_dedents :: "lexer \<Rightarrow> event list \<times> lexer \<times> error option" where
  "eof_dedents lx =
     (if indent lx = [] then ([], lx, Some IndexError)
      else if last (indent lx) > 0 then
        (let lx1 = lx\<lparr>indent := butlast (indent lx)\<rparr> in
         case token_from_text lx1 ''DEDENT'' '''' of
           (tok, lx2) \<Rightarrow>
             (case eof_dedents lx2 of
                (evs, lx3, err) \<Rightarrow> ((tok, indent lx2) # evs, lx3, err)))
      else ([], lx, None))"
  by pat_completeness auto
termination
  by (relation "measure (\<lambda>lx. length (indent lx))")
     (auto simp: token_from_text_def Let_def split: if_splits)

definition get_eof_tokens :: "lexer \<Rightarrow> event list \<times> lexer \<times> error option" where
  "get_eof_tokens lx =
     (case (if logical_line_started lx
            then (case token_from_text lx ''NL'' '''' of (tok, lx1) \<Rightarrow> ([(tok, indent lx1)], lx1))
            else ([], lx)) of
        (evs, lx1) \<Rightarrow>
          if length (indent lx1) > 1
          then (case eof_dedents lx1 of (evs', lx2, err) \<Rightarrow> (evs @ evs', lx2, err))
          else (evs, lx1, None))"

text \<open>
  Modelled from the spec: \<open>handle_error\<close> belongs to the base class \<open>lexer.Lexer\<close>, which
  is not part of the sources at hand. The spec has unmatched input fail with a lexical
  error that carries the offending text and its position.
\<close>

definition handle_error :: "lexer \<Rightarrow> string \<Rightarrow> error" where
  "handle_error lx txt = UnknownTokenError txt (lineno lx) (colno lx)"

text \<open>
  One pass through the body of the loop \<open>for match in ...finditer(src, self.start)\<close>. At
  every cursor position below the end some alternative matches (the error alternative at
  least), so the match \<open>finditer\<close> finds next starts at the cursor, and a pass of the
  \<open>for\<close> loop and a fresh entry through the \<open>while\<close> loop scan from the same position: the
  only difference between \<open>break\<close> and going on is the state, which is looked up anew here
  on every pass.
\<close>

text \<open>The end of the loop body, where the state is switched: to the rule's \<open>next_state\<close>
  when that is not \<open>STATE_KEEP\<close> and differs from the current state; otherwise to a
  pending \<open>_next_state\<close>, which is cleared.\<close>

definition switch_state :: "rule \<Rightarrow> lexer \<Rightarrow> lexer" where
  "switch_state rule lx =
     (if next_state rule \<noteq> 0 \<and> next_state rule \<noteq> lstate lx
      then lx\<lparr>lstate := next_state rule\<rparr>
      else (case lnext_state lx of
              Some st \<Rightarrow> lx\<lparr>lstate := st, lnext_state := None\<rparr>
            | None \<Rightarrow> lx))"

definition lex_step :: "(string \<Rightarrow> pattern) \<Rightarrow> keyword_table \<Rightarrow> lexer \<Rightarrow> event list \<times> lexer \<times> error option" where
  "lex_step group_re edge_schema_keywords lx =
     (case states group_re edge_schema_keywords (lstate lx) of
        None \<Rightarrow> ([], lx, Some KeyError)
      | Some rules \<Rightarrow>
          (case first_match rules (inputstr lx) (start lx) of
             None \<Rightarrow> ([], lx, Some (handle_error lx (take 1 (drop (start lx) (inputstr lx)))))
           | Some (rule, n) \<Rightarrow>
               (case token_from_text lx (token rule) (take n (drop (start lx) (inputstr lx))) of
                  (tok, lx1) \<Rightarrow>
                    (case token_generator lx1 tok of
                       (evs, lx2, err) \<Rightarrow>
                         (case err of
                            Some e \<Rightarrow> (evs, lx2, Some e)
                          | None \<Rightarrow> (evs, switch_state rule lx2, None))))))"

text \<open>How a pass of \<open>lex\<close> ends: the input is exhausted, an exception is raised, or the
  fuel given to the model of the loop runs out first.\<close>

datatype outcome = Finished | Raised error | OutOfFuel

text \<open>The loop \<open>while self.start < self.end\<close>, with fuel: one unit per pass.\<close>

fun drive :: "nat \<Rightarrow> (string \<Rightarrow> pattern) \<Rightarrow> keyword_table \<Rightarrow> lexer \<Rightarrow> event list \<times> lexer \<times> outcome" where
  "drive 0 group_re edge_schema_keywords lx =
     (if start lx < length (inputstr lx) then ([], lx, OutOfFuel) else ([], lx, Finished))"
| "drive (Suc fuel) group_re edge_schema_keywords lx =
     (if start lx < length (inputstr lx) then
        (case lex_step group_re edge_schema_keywords lx of
           (evs, lx1, err) \<Rightarrow>
             (case err of
                Some e \<Rightarrow> (evs, lx1, Raised e)
              | None \<Rightarrow>
                  (case drive fuel group_re edge_schema_keywords lx1 of
                     (evs', lx2, out) \<Rightarrow> (evs @ evs', lx2, out))))
      else ([], lx, Finished))"

text \<open>The assignments at the head of \<open>lex\<close> (\<open>prevtok\<close> is never read).\<close>

definition lex_init :: "lexer \<Rightarrow> lexer" where
  "lex_init lx = lx\<lparr>indent := [0], logical_line_started := True, lnext_state := None\<rparr>"

text \<open>\<open>lex\<close>: \<open>get_start_tokens\<close> yields nothing; the loop; then \<open>get_eof_tokens\<close>.\<close>

definition lex :: "nat \<Rightarrow> (string \<Rightarrow> pattern) \<Rightarrow> keyword_table \<Rightarrow> lexer \<Rightarrow> event list \<times> lexer \<times> outcome" where
  "lex fuel group_re edge_schema_keywords lx =
     (case drive fuel group_re edge_schema_keywords (lex_init lx) of
        (evs, lx1, out) \<Rightarrow>
          (case out of
             Finished \<Rightarrow>
               (case get_eof_tokens lx1 of
                  (evs', lx2, err) \<Rightarrow>
                    (evs @ evs', lx2, case err of None \<Rightarrow> Finished | Some e \<Rightarrow> Raised e))
           | Raised e \<Rightarrow> (evs, lx1, Raised e)
           | OutOfFuel \<Rightarrow> (evs, lx1, OutOfFuel)))"

text \<open>
  Modelled from the spec: \<open>setinputstr\<close> belongs to the base class \<open>lexer.Lexer\<close>, which
  is not part of the sources at hand. The spec has a pass start with the cursor at 0, the
  state \<open>start_state\<close> and the position at line 1, column 1.
\<close>

definition start_state :: nat where
  "start_state = STATE_WS_SENSITIVE"

definition setinputstr :: "lexer \<Rightarrow> string \<Rightarrow> lexer" where
  "setinputstr lx src =
     lx\<lparr>inputstr := src, start := 0, lineno := 1, colno := 1, lstate := start_state\<rparr>"

text \<open>
  Modelled from the spec: the keyword pattern that \<open>lexer.group\<close> builds, for the
  evaluation of concrete inputs. The spec has a keyword rule match the exact literal
  spelling of the keyword.
\<close>

definition group_literal :: "string \<Rightarrow> pattern" where
  "group_literal val = re_literal val"

section \<open>The indent stack invariant\<close>

text \<open>The invariant of the data model's IndentStack: not empty, first element 0,
  strictly increasing from bottom to top.\<close>

definition indent_ok :: "int list \<Rightarrow> bool" where
  "indent_ok stk = (stk \<noteq> [] \<and> hd stk = 0 \<and> sorted_wrt (<) stk)"

text \<open>What holds of the lexer object between two passes of the driver loop: the stack
  invariant, and a column that is 1-based.\<close>

definition lexer_inv :: "lexer \<Rightarrow> bool" where
  "lexer_inv lx = (indent_ok (indent lx) \<and> 1 \<le> colno lx)"

section \<open>\<open>typeutils\<close>: the container predicate\<close>

text \<open>
  A Python class is a value of \<open>pyclass\<close>: the two abstract base classes and the four
  built-in types that \<open>typeutils\<close> names, and any other class. The class hierarchy,
  with the virtual subclasses that abstract base classes add, is the relation
  \<open>issubclass\<close>, a parameter of the model. \<open>issubclass(cls, (a, b, ...))\<close> with a tuple
  holds when it holds for one of the members.
\<close>

datatype pyclass = Container | Iterable | Str | Bytes | Bytearray | Memoryview | Class nat

type_synonym hierarchy = "pyclass \<Rightarrow> pyclass \<Rightarrow> bool"

definition issubclass_any :: "hierarchy \<Rightarrow> pyclass \<Rightarrow> pyclass list \<Rightarrow> bool" where
  "issubclass_any issubclass cls classes = list_ex (issubclass cls) classes"

text \<open>The functions under the decorators.\<close>

definition is_container_type_wrapped :: "hierarchy \<Rightarrow> pyclass \<Rightarrow> bool" where
  "is_container_type_wrapped issubclass cls =
     (issubclass cls Container \<and>
      \<not> issubclass_any issubclass cls [Str, Bytes, Bytearray, Memoryview])"

definition is_iterable_type_wrapped :: "hierarchy \<Rightarrow> pyclass \<Rightarrow> bool" where
  "is_iterable_type_wrapped issubclass cls = issubclass cls Iterable"

text \<open>
  \<open>functools.lru_cache(1024)\<close>: a call with a cached argument returns the stored result
  and makes the entry the most recent one; any other call runs the function, stores the
  result as the most recent entry and drops the least recent entry beyond \<open>maxsize\<close>.
  The cache is the list of its entries, the most recent first.
\<close>

type_synonym lru = "(pyclass \<times> bool) list"

definition lru_cache :: "nat \<Rightarrow> (pyclass \<Rightarrow> bool) \<Rightarrow> lru \<Rightarrow> pyclass \<Rightarrow> bool \<times> lru" where
  "lru_cache maxsize f cache cls =
     (case map_of cache cls of
        Some v \<Rightarrow> (v, (cls, v) # filter (\<lambda>e. fst e \<noteq> cls) cache)
      | None \<Rightarrow> (f cls, take maxsize ((cls, f cls) # cache)))"

record caches =
  container_cache :: lru
  iterable_cache :: lru

text \<open>\<open>_is_container_type\<close> and \<open>_is_iterable_type\<close>, as decorated.\<close>

definition is_container_type_cached :: "hierarchy \<Rightarrow> caches \<Rightarrow> pyclass \<Rightarrow> bool \<times> caches" where
  "is_container_type_cached issubclass cs cls =
     (case lru_cache 1024 (is_container_type_wrapped issubclass) (container_cache cs) cls of
        (v, c) \<Rightarrow> (v, cs\<lparr>container_cache := c\<rparr>))"

definition is_iterable_type_cached :: "hierarchy \<Rightarrow> caches \<Rightarrow> pyclass \<Rightarrow> bool \<times> caches" where
  "is_iterable_type_cached issubclass cs cls =
     (case lru_cache 1024 (is_iterable_type_wrapped issubclass) (iterable_cache cs) cls of
        (v, c) \<Rightarrow> (v, cs\<lparr>iterable_cache := c\<rparr>))"

text \<open>\<open>is_container\<close>; \<open>class_of\<close> is \<open>obj.__class__\<close>. The operator \<open>and\<close> evaluates its
  right operand only when the left one is true.\<close>

definition is_container :: "hierarchy \<Rightarrow> ('o \<Rightarrow> pyclass) \<Rightarrow> caches \<Rightarrow> 'o \<Rightarrow> bool \<times> caches" where
  "is_container issubclass class_of cs obj =
     (let cls = class_of obj in
      case is_container_type_cached issubclass cs cls of
        (v, cs1) \<Rightarrow> if v then is_iterable_type_cached issubclass cs1 cls else (False, cs1))"

text \<open>A cache agrees with the class hierarchy when every entry holds the value its
  function has now, as it does when the hierarchy has not changed since the entry was
  stored.\<close>

definition cache_ok :: "(pyclass \<Rightarrow> bool) \<Rightarrow> lru \<Rightarrow> bool" where
  "cache_ok f cache = list_all (\<lambda>e. snd e = f (fst e)) cache"

definition caches_ok :: "hierarchy \<Rightarrow> caches \<Rightarrow> bool" where
  "caches_ok issubclass cs =
     (cache_ok (is_container_type_wrapped issubclass) (container_cache cs) \<and>
      cache_ok (is_iterable_type_wrapped issubclass) (iterable_cache cs))"

text \<open>The part of Python's built-in hierarchy the container predicate looks at: \<open>str\<close>,
  \<open>bytes\<close>, \<open>bytearray\<close> and \<open>memoryview\<close> are sequences, hence containers and
  iterables, and so is \<open>list\<close>, for which class 0 stands; the other classes are
  subclasses of themselves only.\<close>

definition builtin_issubclass :: hierarchy where
  "builtin_issubclass cls base =
     (cls = base \<or>
      (cls \<in> {Str, Bytes, Bytearray, Memoryview, Class 0} \<and> base \<in> {Container, Iterable}))"

text \<open>\<open>abc.register(cls)\<close>: the hierarchy in which \<open>cls\<close> has become a virtual subclass
  of the abstract base class \<open>abc\<close>.\<close>

definition abc_register :: "hierarchy \<Rightarrow> pyclass \<Rightarrow> pyclass \<Rightarrow> hierarchy" where
  "abc_register issubclass abc cls = (\<lambda>c base. issubclass c base \<or> (c = cls \<and> base = abc))"

text \<open>The hierarchy after class 7 has been registered with \<open>Container\<close> and \<open>Iterable\<close>,
  and the caches left by one call of \<open>is_container\<close> on an instance of class 7 made before
  the registration, from empty caches.\<close>

definition registered_issubclass :: hierarchy where
  "registered_issubclass =
     abc_register (abc_register builtin_issubclass Container (Class 7)) Iterable (Class 7)"

definition caches_before_register :: caches where
  "caches_before_register =
     snd (is_container builtin_issubclass (\<lambda>obj :: unit. Class 7)
            \<lparr>container_cache = [], iterable_cache = []\<rparr> ())"

section \<open>Concrete inputs\<close>

text \<open>A lexer object before \<open>setinputstr\<close>, with the attributes of an earlier pass.\<close>

definition stale_lexer :: lexer where
  "stale_lexer =
     \<lparr>inputstr = ''x'', start = 1, lineno = 7, colno = 2, lstate = STATE_RAW_STRING,
      lnext_state = Some STATE_WS_SENSITIVE, indent = [0, 4, 8],
      logical_line_started = False\<rparr>"

text \<open>A lexer object in the middle of a pass, and a token on line 3.\<close>

definition sample_lexer :: "string \<Rightarrow> nat \<Rightarrow> bool \<Rightarrow> int list \<Rightarrow> lexer" where
  "sample_lexer src st open_line stk =
     \<lparr>inputstr = src, start = 0, lineno = 3, colno = 1, lstate = st,
      lnext_state = None, indent = stk, logical_line_started = open_line\<rparr>"

definition sample_token :: "string \<Rightarrow> string \<Rightarrow> int \<Rightarrow> token" where
  "sample_token ty txt col =
     \<lparr>tok_value = txt, tok_type = ty, tok_text = txt,
      tok_start = \<lparr>line = 3, column = col\<rparr>,
      tok_end = \<lparr>line = 3, column = col + int (length txt)\<rparr>\<rparr>"

text \<open>An input that ends inside an open bracket, \<^verbatim>\<open>"a:\n  b (\n"\<close>, and one with a
  bracket nested in a bracket, \<^verbatim>\<open>"a (\n  b (c)\n    d)\n"\<close>.\<close>

definition paren_src :: string where
  "paren_src = ''a:'' @ [CHR 0x0A] @ ''  b ('' @ [CHR 0x0A]"

definition nested_src :: string where
  "nested_src = ''a ('' @ [CHR 0x0A] @ ''  b (c)'' @ [CHR 0x0A] @ ''    d)'' @ [CHR 0x0A]"


text \<open>The scenario input \<^verbatim>\<open>"abstract link foo:\n    bar := 1\n"\<close>, and a keyword table
  with the two keywords it uses.\<close>

definition scenario_src :: string where
  "scenario_src = ''abstract link foo:'' @ [CHR 0x0A] @ ''    bar := 1'' @ [CHR 0x0A]"

definition scenario_keywords :: keyword_table where
  "scenario_keywords =
     [(''abstract'', ''ABSTRACT'', ''reserved''), (''link'', ''LINK'', ''reserved'')]"


text \<open>The tokens of the scenario, each with the indent stack at its \<open>yield\<close>, and the
  lexer object at the end of the pass.\<close>

definition scenario_token :: "string \<Rightarrow> string \<Rightarrow> int \<Rightarrow> int \<Rightarrow> int \<Rightarrow> int \<Rightarrow> token" where
  "scenario_token ty txt l1 c1 l2 c2 =
     \<lparr>tok_value = txt, tok_type = ty, tok_text = txt,
      tok_start = \<lparr>line = l1, column = c1\<rparr>, tok_end = \<lparr>line = l2, column = c2\<rparr>\<rparr>"

definition scenario_events :: "event list" where
  "scenario_events =
     [(scenario_token ''ABSTRACT'' ''abstract'' 1 1 1 9, [0]),
      (scenario_token ''WS'' '' '' 1 9 1 10, [0]),
      (scenario_token ''LINK'' ''link'' 1 10 1 14, [0]),
      (scenario_token ''WS'' '' '' 1 14 1 15, [0]),
      (scenario_token ''IDENT'' ''foo'' 1 15 1 18, [0]),
      (scenario_token ''COLON'' '':'' 1 18 1 19, [0]),
      (scenario_token ''NL'' '''' 1 19 1 19, [0]),
      (scenario_token ''NEWLINE'' [CHR 0x0A] 1 19 2 1, [0]),
      (scenario_token ''WS'' ''    '' 2 1 2 5, [0]),
      (scenario_token ''INDENT'' '''' 2 5 2 5, [0, 4]),
      (scenario_token ''IDENT'' ''bar'' 2 5 2 8, [0, 4]),
      (scenario_token ''WS'' '' '' 2 8 2 9, [0, 4]),
      (scenario_token ''TURNSTILE'' '':='' 2 9 2 11, [0, 4]),
      (scenario_token ''RAWSTRING'' '' 1'' 2 11 2 13, [0, 4]),
      (scenario_token ''NL'' '''' 2 13 2 13, [0, 4]),
      (scenario_token ''NEWLINE'' [CHR 0x0A] 2 13 3 1, [0, 4]),
      (scenario_token ''DEDENT'' '''' 3 1 3 1, [0])]"

definition scenario_final :: lexer where
  "scenario_final =
     \<lparr>inputstr = scenario_src, start = 32, lineno = 3, colno = 1,
      lstate = STATE_WS_SENSITIVE, lnext_state = None, indent = [0],
      logical_line_started = False\<rparr>"

section \<open>Properties of the unindent loop\<close>

declare unindent.simps [simp del]
declare eof_dedents.simps [simp del]

lemma indent_ok_snoc:
  "indent_ok stk \<Longrightarrow> last stk < x \<Longrightarrow> indent_ok (stk @ [x])"
  unfolding indent_ok_def
  by (cases stk rule: rev_cases) (auto simp: sorted_wrt_append hd_append)

lemma indent_ok_butlast:
  "indent_ok stk \<Longrightarrow> butlast stk \<noteq> [] \<Longrightarrow> indent_ok (butlast stk)"
  unfolding indent_ok_def
  by (cases stk rule: rev_cases) (auto simp: sorted_wrt_append hd_append)

lemma indent_ok_ge0: "indent_ok stk \<Longrightarrow> x \<in> set stk \<Longrightarrow> 0 \<le> x"
  unfolding indent_ok_def by (cases stk) auto

lemma indent_ok_pop_nonempty:
  "indent_ok stk \<Longrightarrow> 0 \<le> cur \<Longrightarrow> cur < last stk \<Longrightarrow> butlast stk \<noteq> []"
  unfolding indent_ok_def
  by (cases stk rule: rev_cases) (auto simp: hd_append split: if_splits)

lemma sorted_last_ge:
  "sorted_wrt (<) (stk :: int list) \<Longrightarrow> x \<in> set stk \<Longrightarrow> x \<le> last stk"
  by (cases stk rule: rev_cases) (auto simp: sorted_wrt_append less_imp_le)

lemma lexer_indent_same [simp]: "lx\<lparr>indent := indent lx\<rparr> = lx"
  by simp

lemma unindent_match:
  "sorted_wrt (<) (indent lx) \<Longrightarrow> cur \<in> set (indent lx) \<Longrightarrow>
   \<exists>evs. unindent lx cur tok pos =
           (evs, lx\<lparr>indent := filter (\<lambda>x. x \<le> cur) (indent lx)\<rparr>, None) \<and>
         map fst evs = replicate (length (filter (\<lambda>x. cur < x) (indent lx)))
                         (insert_token ''DEDENT'' tok pos)"
proof (induction lx cur tok pos rule: unindent.induct)
  case (1 lx cur tok pos)
  from "1.prems" obtain ys y where stk: "indent lx = ys @ [y]"
    by (cases "indent lx" rule: rev_cases) auto
  show ?case
  proof (cases "cur < y")
    case False
    with "1.prems" stk have all: "\<forall>x \<in> set (indent lx). x \<le> cur"
      by (auto simp: sorted_wrt_append)
    then have "filter (\<lambda>x. x \<le> cur) (indent lx) = indent lx"
      and "filter (\<lambda>x. cur < x) (indent lx) = []"
      by (auto simp: filter_empty_conv)
    with False stk show ?thesis
      by (subst unindent.simps) simp
  next
    case True
    let ?lx1 = "lx\<lparr>indent := butlast (indent lx)\<rparr>"
    from True "1.prems" stk have in_ys: "cur \<in> set ys" by auto
    then have ne: "ys \<noteq> []" by auto
    from "1.prems" stk have sys: "sorted_wrt (<) ys" by (simp add: sorted_wrt_append)
    from sorted_last_ge [OF sys in_ys] have ge: "\<not> last ys < cur" by simp
    from "1.IH" [of ?lx1] stk True ne ge sys in_ys
    obtain evs where rec: "unindent ?lx1 cur tok pos =
           (evs, ?lx1\<lparr>indent := filter (\<lambda>x. x \<le> cur) ys\<rparr>, None)"
      and toks: "map fst evs = replicate (length (filter (\<lambda>x. cur < x) ys))
                         (insert_token ''DEDENT'' tok pos)"
      by auto
    show ?thesis
      using stk True ne ge rec toks in_ys
      by (subst unindent.simps) (simp add: Let_def)
  qed
qed

lemma unindent_mismatch:
  "indent_ok (indent lx) \<Longrightarrow> 0 \<le> cur \<Longrightarrow> cur \<notin> set (indent lx) \<Longrightarrow> cur < last (indent lx) \<Longrightarrow>
   \<exists>evs lx'. unindent lx cur tok pos =
           (evs, lx', Some (EdgeIndentationError ''Incorrect unindent at {position}''
                             (line (attrs_pos tok pos)) (column (attrs_pos tok pos)))) \<and>
         map fst evs = replicate (length (filter (\<lambda>x. cur < x) (indent lx)) - 1)
                         (insert_token ''DEDENT'' tok pos)"
proof (induction lx cur tok pos rule: unindent.induct)
  case (1 lx cur tok pos)
  from "1.prems" obtain ys y where stk: "indent lx = ys @ [y]"
    by (cases "indent lx" rule: rev_cases) (auto simp: indent_ok_def)
  let ?lx1 = "lx\<lparr>indent := butlast (indent lx)\<rparr>"
  from "1.prems" stk have y: "cur < y" by simp
  from indent_ok_pop_nonempty [OF "1.prems"(1,2,4)] stk have ne: "ys \<noteq> []" by simp
  from indent_ok_butlast [OF "1.prems"(1)] ne stk have ok: "indent_ok ys" by simp
  from "1.prems" stk have notin: "cur \<notin> set ys" by simp
  show ?case
  proof (cases "last ys < cur")
    case True
    from ok have "sorted_wrt (<) ys" by (simp add: indent_ok_def)
    from sorted_last_ge [OF this] True have "\<forall>x \<in> set ys. \<not> cur < x" by fastforce
    then have "filter (\<lambda>x. cur < x) ys = []" by (simp add: filter_empty_conv)
    with stk y ne True show ?thesis
      by (subst unindent.simps) (simp add: Let_def)
  next
    case False
    with notin ne have gt: "cur < last ys" by (metis last_in_set less_linear)
    from "1.IH" [of ?lx1] stk y ne False ok "1.prems"(2) notin gt
    obtain evs lx' where rec: "unindent ?lx1 cur tok pos =
           (evs, lx', Some (EdgeIndentationError ''Incorrect unindent at {position}''
                             (line (attrs_pos tok pos)) (column (attrs_pos tok pos))))"
      and toks: "map fst evs = replicate (length (filter (\<lambda>x. cur < x) ys) - 1)
                         (insert_token ''DEDENT'' tok pos)"
      by auto
    from gt ne have "last ys \<in> set (filter (\<lambda>x. cur < x) ys)" by simp
    then have pos: "0 < length (filter (\<lambda>x. cur < x) ys)" by (metis length_pos_if_in_set)
    show ?thesis
      using stk y ne False rec toks pos
      by (subst unindent.simps) (simp add: Let_def replicate_Suc [symmetric] del: replicate_Suc)
  qed
qed

lemma unindent_inv:
  "indent_ok (indent lx) \<Longrightarrow> 0 \<le> cur \<Longrightarrow> unindent lx cur tok pos = (evs, lx', err) \<Longrightarrow>
   indent_ok (indent lx') \<and> list_all (\<lambda>e. indent_ok (snd e)) evs \<and>
   lx' = lx\<lparr>indent := indent lx'\<rparr> \<and> err \<noteq> Some IndexError \<and> err \<noteq> Some KeyError"
proof (induction lx cur tok pos arbitrary: evs lx' err rule: unindent.induct)
  case (1 lx cur tok pos)
  from "1.prems" have ne0: "indent lx \<noteq> []" by (simp add: indent_ok_def)
  show ?case
  proof (cases "cur < last (indent lx)")
    case False
    with "1.prems" ne0 show ?thesis
      by (subst (asm) unindent.simps) auto
  next
    case True
    let ?lx1 = "lx\<lparr>indent := butlast (indent lx)\<rparr>"
    from indent_ok_pop_nonempty [OF "1.prems"(1,2) True] have ne: "butlast (indent lx) \<noteq> []" .
    from indent_ok_butlast [OF "1.prems"(1) ne] have ok: "indent_ok (indent ?lx1)" by simp
    show ?thesis
    proof (cases "last (butlast (indent lx)) < cur")
      case True
      with \<open>cur < last (indent lx)\<close> ne0 ne ok "1.prems"(3) show ?thesis
        by (subst (asm) unindent.simps) (auto simp: Let_def)
    next
      case False
      obtain evs1 lx2 err1 where rec: "unindent ?lx1 cur tok pos = (evs1, lx2, err1)"
        by (cases "unindent ?lx1 cur tok pos") auto
      from "1.IH" [OF ne0 True refl _ _ ok "1.prems"(2) rec] ne False
      have ih: "indent_ok (indent lx2) \<and> list_all (\<lambda>e. indent_ok (snd e)) evs1 \<and>
          lx2 = ?lx1\<lparr>indent := indent lx2\<rparr> \<and> err1 \<noteq> Some IndexError \<and> err1 \<noteq> Some KeyError"
        by simp
      from "1.prems"(3) True ne0 ne False rec
      have "evs = (insert_token ''DEDENT'' tok pos, indent ?lx1) # evs1" "lx' = lx2" "err = err1"
        by (subst (asm) unindent.simps, simp add: Let_def)+
      with ih ok show ?thesis by auto
    qed
  qed
qed

section \<open>Facts about the states and the layout synthesizer\<close>

lemmas state_defs = STATE_KEEP_def STATE_WS_SENSITIVE_def STATE_WS_INSENSITIVE_def STATE_RAW_STRING_def

lemma state_distinct [simp]:
  "STATE_WS_SENSITIVE \<noteq> STATE_WS_INSENSITIVE" "STATE_WS_INSENSITIVE \<noteq> STATE_WS_SENSITIVE"
  "STATE_WS_SENSITIVE \<noteq> STATE_RAW_STRING" "STATE_RAW_STRING \<noteq> STATE_WS_SENSITIVE"
  "STATE_WS_INSENSITIVE \<noteq> STATE_RAW_STRING" "STATE_RAW_STRING \<noteq> STATE_WS_INSENSITIVE"
  "STATE_WS_SENSITIVE \<noteq> 0" "STATE_WS_INSENSITIVE \<noteq> 0" "STATE_RAW_STRING \<noteq> 0"
  "STATE_KEEP = 0"
  by (simp_all add: state_defs)

lemma sorted_filter_le:
  "sorted_wrt (<) (stk :: int list) \<Longrightarrow> filter (\<lambda>x. x \<le> c) stk = takeWhile (\<lambda>x. x \<le> c) stk"
proof (induction stk)
  case Nil
  then show ?case by simp
next
  case (Cons a stk)
  show ?case
  proof (cases "a \<le> c")
    case True
    with Cons show ?thesis by simp
  next
    case False
    with Cons.prems have "\<forall>x \<in> set stk. \<not> x \<le> c" by auto
    then have "filter (\<lambda>x. x \<le> c) stk = []" by (simp add: filter_empty_conv)
    with False show ?thesis by simp
  qed
qed

lemma sorted_filter_gt:
  "sorted_wrt (<) (stk :: int list) \<Longrightarrow> filter (\<lambda>x. c < x) stk = dropWhile (\<lambda>x. x \<le> c) stk"
proof (induction stk)
  case Nil
  then show ?case by simp
next
  case (Cons a stk)
  show ?case
  proof (cases "a \<le> c")
    case True
    with Cons show ?thesis by simp
  next
    case False
    with Cons.prems have "\<forall>x \<in> set stk. c < x" by auto
    then have "filter (\<lambda>x. c < x) stk = stk" by simp
    with False show ?thesis by simp
  qed
qed

lemma takeWhile_last_eq:
  "sorted_wrt (<) (stk :: int list) \<Longrightarrow> c \<in> set stk \<Longrightarrow> last (takeWhile (\<lambda>x. x \<le> c) stk) = c"
proof (induction stk)
  case Nil
  then show ?case by simp
next
  case (Cons a stk)
  show ?case
  proof (cases "a = c")
    case True
    with Cons.prems have "\<forall>x \<in> set stk. c < x" by auto
    then have "takeWhile (\<lambda>x. x \<le> c) stk = []"
      by (cases stk) auto
    with True show ?thesis by simp
  next
    case False
    with Cons.prems have c: "c \<in> set stk" "a < c" by auto
    with Cons have "last (takeWhile (\<lambda>x. x \<le> c) stk) = c" by simp
    moreover from c have "takeWhile (\<lambda>x. x \<le> c) stk \<noteq> []"
      using Cons.prems by (cases stk) auto
    ultimately show ?thesis using c by simp
  qed
qed

lemma code_unindent_aux:
  assumes st: "lstate lx = STATE_WS_SENSITIVE"
    and lls: "\<not> logical_line_started lx"
    and ty: "\<not> is_layout_type (tok_type tok)"
    and ok: "indent_ok (indent lx)"
    and col: "1 \<le> column (tok_start tok)"
    and cur: "column (tok_start tok) - 1 = cur"
    and lt: "cur < last (indent lx)"
  shows "(cur \<in> set (indent lx) \<longrightarrow>
           (\<exists>evs. token_generator lx tok =
                    (evs,
                     lx\<lparr>indent := takeWhile (\<lambda>x. x \<le> cur) (indent lx),
                        logical_line_started := True\<rparr>, None) \<and>
                  map fst evs =
                    replicate (length (dropWhile (\<lambda>x. x \<le> cur) (indent lx)))
                      (insert_token ''DEDENT'' tok ''start'') @ [tok] \<and>
                  last (takeWhile (\<lambda>x. x \<le> cur) (indent lx)) = cur)) \<and>
         (cur \<notin> set (indent lx) \<longrightarrow>
           (\<exists>evs lx'. token_generator lx tok =
                    (evs, lx', Some (EdgeIndentationError ''Incorrect unindent at {position}''
                                      (line (tok_start tok)) (column (tok_start tok)))) \<and>
                  map fst evs =
                    replicate (length (dropWhile (\<lambda>x. x \<le> cur) (indent lx)) - 1)
                      (insert_token ''DEDENT'' tok ''start'')))"
proof -
  from ok have ne: "indent lx \<noteq> []" and sorted: "sorted_wrt (<) (indent lx)"
    by (simp_all add: indent_ok_def)
  have code: "indent_code lx tok = unindent lx cur tok ''start''"
    using ne lt cur by (simp add: indent_code_def Let_def)
  have hi: "handle_indentation lx tok =
      (case unindent lx cur tok ''start'' of (evs, lx1, err) \<Rightarrow> (evs, lx1, tok, err))"
    using st lls ty code by (simp add: handle_indentation_def)
  show ?thesis
  proof (intro conjI impI)
    assume mem: "cur \<in> set (indent lx)"
    from unindent_match [OF sorted mem, of tok "''start''"]
    obtain evs where u: "unindent lx cur tok ''start'' =
        (evs, lx\<lparr>indent := filter (\<lambda>x. x \<le> cur) (indent lx)\<rparr>, None)"
      and m: "map fst evs = replicate (length (filter (\<lambda>x. cur < x) (indent lx)))
                         (insert_token ''DEDENT'' tok ''start'')"
      by blast
    have "token_generator lx tok =
        (evs @ [(tok, takeWhile (\<lambda>x. x \<le> cur) (indent lx))],
         lx\<lparr>indent := takeWhile (\<lambda>x. x \<le> cur) (indent lx), logical_line_started := True\<rparr>, None)"
      using hi u lls ty by (simp add: token_generator_def Let_def sorted_filter_le [OF sorted])
    moreover have "map fst (evs @ [(tok, takeWhile (\<lambda>x. x \<le> cur) (indent lx))]) =
        replicate (length (dropWhile (\<lambda>x. x \<le> cur) (indent lx)))
                      (insert_token ''DEDENT'' tok ''start'') @ [tok]"
      using m by (simp add: sorted_filter_gt [OF sorted])
    ultimately show "\<exists>evs. token_generator lx tok =
                    (evs,
                     lx\<lparr>indent := takeWhile (\<lambda>x. x \<le> cur) (indent lx),
                        logical_line_started := True\<rparr>, None) \<and>
                  map fst evs =
                    replicate (length (dropWhile (\<lambda>x. x \<le> cur) (indent lx)))
                      (insert_token ''DEDENT'' tok ''start'') @ [tok] \<and>
                  last (takeWhile (\<lambda>x. x \<le> cur) (indent lx)) = cur"
      using takeWhile_last_eq [OF sorted mem] by blast
  next
    assume nmem: "cur \<notin> set (indent lx)"
    from col cur have c0: "0 \<le> cur" by simp
    from unindent_mismatch [OF ok c0 nmem lt, of tok "''start''"]
    obtain evs lx' where u: "unindent lx cur tok ''start'' =
        (evs, lx', Some (EdgeIndentationError ''Incorrect unindent at {position}''
                             (line (tok_start tok)) (column (tok_start tok))))"
      and m: "map fst evs = replicate (length (filter (\<lambda>x. cur < x) (indent lx)) - 1)
                         (insert_token ''DEDENT'' tok ''start'')"
      by (auto simp: attrs_pos_def)
    have "token_generator lx tok =
        (evs, lx', Some (EdgeIndentationError ''Incorrect unindent at {position}''
                             (line (tok_start tok)) (column (tok_start tok))))"
      using hi u by (simp add: token_generator_def Let_def)
    with m show "\<exists>evs lx'. token_generator lx tok =
                    (evs, lx', Some (EdgeIndentationError ''Incorrect unindent at {position}''
                                      (line (tok_start tok)) (column (tok_start tok)))) \<and>
                  map fst evs =
                    replicate (length (dropWhile (\<lambda>x. x \<le> cur) (indent lx)) - 1)
                      (insert_token ''DEDENT'' tok ''start'')"
      by (simp add: sorted_filter_gt [OF sorted])
  qed
qed


lemma raw_unindent_aux:
  assumes st: "lstate lx = STATE_RAW_STRING"
    and lls: "logical_line_started lx"
    and ty: "tok_type tok = ''RAWLEADWS''"
    and ok: "indent_ok (indent lx)"
    and cur: "int (length (tok_value tok)) = cur"
    and lt: "cur < last (indent lx)"
  shows "(cur \<in> set (indent lx) \<longrightarrow>
           (\<exists>evs. token_generator lx tok =
                    (evs,
                     lx\<lparr>indent := takeWhile (\<lambda>x. x \<le> cur) (indent lx),
                        lnext_state := Some STATE_WS_SENSITIVE\<rparr>, None) \<and>
                  map fst evs =
                    insert_token ''NL'' tok ''start'' #
                    replicate (length (dropWhile (\<lambda>x. x \<le> cur) (indent lx)))
                      (insert_token ''DEDENT'' tok ''end'') @ [tok\<lparr>tok_type := ''WS''\<rparr>] \<and>
                  last (takeWhile (\<lambda>x. x \<le> cur) (indent lx)) = cur)) \<and>
         (cur \<notin> set (indent lx) \<longrightarrow>
           (\<exists>evs lx'. token_generator lx tok =
                    (evs, lx', Some (EdgeIndentationError ''Incorrect unindent at {position}''
                                      (line (tok_end tok)) (column (tok_end tok)))) \<and>
                  map fst evs =
                    insert_token ''NL'' tok ''start'' #
                    replicate (length (dropWhile (\<lambda>x. x \<le> cur) (indent lx)) - 1)
                      (insert_token ''DEDENT'' tok ''end''))) \<and>
         (next_state rule = STATE_KEEP \<longrightarrow>
            switch_state rule
              (lx\<lparr>indent := takeWhile (\<lambda>x. x \<le> cur) (indent lx),
                  lnext_state := Some STATE_WS_SENSITIVE\<rparr>) =
            lx\<lparr>indent := takeWhile (\<lambda>x. x \<le> cur) (indent lx),
               lstate := STATE_WS_SENSITIVE, lnext_state := None\<rparr>)"
proof -
  from ok have ne: "indent lx \<noteq> []" and sorted: "sorted_wrt (<) (indent lx)"
    by (simp_all add: indent_ok_def)
  have lay: "\<not> is_layout_type (tok_type tok)"
    using ty by (simp add: is_layout_type_def)
  have hi: "handle_indentation lx tok =
      (case unindent lx cur tok ''end'' of
         (evs, lx1, err) \<Rightarrow>
           (case err of
              Some e \<Rightarrow> ((insert_token ''NL'' tok ''start'', indent lx) # evs, lx1, tok, Some e)
            | None \<Rightarrow>
                ((insert_token ''NL'' tok ''start'', indent lx) # evs,
                 lx1\<lparr>lnext_state := Some STATE_WS_SENSITIVE\<rparr>,
                 tok\<lparr>tok_type := ''WS''\<rparr>, None)))"
    using st lls ty ne lt cur
    by (simp add: handle_indentation_def indent_raw_def Let_def)
  show ?thesis
  proof (intro conjI impI)
    assume mem: "cur \<in> set (indent lx)"
    from unindent_match [OF sorted mem, of tok "''end''"]
    obtain evs where u: "unindent lx cur tok ''end'' =
        (evs, lx\<lparr>indent := filter (\<lambda>x. x \<le> cur) (indent lx)\<rparr>, None)"
      and m: "map fst evs = replicate (length (filter (\<lambda>x. cur < x) (indent lx)))
                         (insert_token ''DEDENT'' tok ''end'')"
      by blast
    let ?keep = "takeWhile (\<lambda>x. x \<le> cur) (indent lx)"
    have same: "lx\<lparr>indent := ?keep, lnext_state := Some STATE_WS_SENSITIVE,
                  logical_line_started := True\<rparr> =
                lx\<lparr>indent := ?keep, lnext_state := Some STATE_WS_SENSITIVE\<rparr>"
      using lls by simp
    have "token_generator lx tok =
        (((insert_token ''NL'' tok ''start'', indent lx) # evs) @
           [(tok\<lparr>tok_type := ''WS''\<rparr>, ?keep)],
         lx\<lparr>indent := ?keep, lnext_state := Some STATE_WS_SENSITIVE\<rparr>, None)"
      using hi u lls ty lay same
      by (simp add: token_generator_def Let_def sorted_filter_le [OF sorted])
    moreover have "map fst (((insert_token ''NL'' tok ''start'', indent lx) # evs) @
           [(tok\<lparr>tok_type := ''WS''\<rparr>, ?keep)]) =
        insert_token ''NL'' tok ''start'' #
        replicate (length (dropWhile (\<lambda>x. x \<le> cur) (indent lx)))
                      (insert_token ''DEDENT'' tok ''end'') @ [tok\<lparr>tok_type := ''WS''\<rparr>]"
      using m by (simp add: sorted_filter_gt [OF sorted])
    ultimately show "\<exists>evs. token_generator lx tok =
                    (evs, lx\<lparr>indent := ?keep, lnext_state := Some STATE_WS_SENSITIVE\<rparr>, None) \<and>
                  map fst evs =
                    insert_token ''NL'' tok ''start'' #
                    replicate (length (dropWhile (\<lambda>x. x \<le> cur) (indent lx)))
                      (insert_token ''DEDENT'' tok ''end'') @ [tok\<lparr>tok_type := ''WS''\<rparr>] \<and>
                  last ?keep = cur"
      using takeWhile_last_eq [OF sorted mem]
      by (intro exI [of _ "((insert_token ''NL'' tok ''start'', indent lx) # evs) @
           [(tok\<lparr>tok_type := ''WS''\<rparr>, ?keep)]"] conjI) simp_all
  next
    assume nmem: "cur \<notin> set (indent lx)"
    from cur have c0: "0 \<le> cur" by auto
    from unindent_mismatch [OF ok c0 nmem lt, of tok "''end''"]
    obtain evs lx' where u: "unindent lx cur tok ''end'' =
        (evs, lx', Some (EdgeIndentationError ''Incorrect unindent at {position}''
                             (line (tok_end tok)) (column (tok_end tok))))"
      and m: "map fst evs = replicate (length (filter (\<lambda>x. cur < x) (indent lx)) - 1)
                         (insert_token ''DEDENT'' tok ''end'')"
      by (auto simp: attrs_pos_def)
    have "token_generator lx tok =
        ((insert_token ''NL'' tok ''start'', indent lx) # evs, lx',
         Some (EdgeIndentationError ''Incorrect unindent at {position}''
                             (line (tok_end tok)) (column (tok_end tok))))"
      using hi u by (simp add: token_generator_def Let_def)
    with m show "\<exists>evs lx'. token_generator lx tok =
                    (evs, lx', Some (EdgeIndentationError ''Incorrect unindent at {position}''
                                      (line (tok_end tok)) (column (tok_end tok)))) \<and>
                  map fst evs =
                    insert_token ''NL'' tok ''start'' #
                    replicate (length (dropWhile (\<lambda>x. x \<le> cur) (indent lx)) - 1)
                      (insert_token ''DEDENT'' tok ''end'')"
      by (simp add: sorted_filter_gt [OF sorted])
  next
    assume "next_state rule = STATE_KEEP"
    then show "switch_state rule
              (lx\<lparr>indent := takeWhile (\<lambda>x. x \<le> cur) (indent lx),
                  lnext_state := Some STATE_WS_SENSITIVE\<rparr>) =
            lx\<lparr>indent := takeWhile (\<lambda>x. x \<le> cur) (indent lx),
               lstate := STATE_WS_SENSITIVE, lnext_state := None\<rparr>"
      by (simp add: switch_state_def)
  qed
qed

lemma all_dropWhile: "(\<forall>x \<in> set (dropWhile P s). P x) \<longleftrightarrow> (\<forall>x \<in> set s. P x)"
  by (induction s) auto

lemma strip_Nil_iff: "strip s = [] \<longleftrightarrow> list_all is_space s"
  by (simp add: strip_def dropWhile_eq_Nil_conv list_all_iff all_dropWhile)

lemma raw_must_indent_aux:
  assumes st: "lstate lx = STATE_RAW_STRING"
    and lls: "\<not> logical_line_started lx"
    and ty: "tok_type tok \<noteq> ''NEWLINE''"
    and ne: "indent lx \<noteq> []"
  shows "(tok_type tok = ''RAWLEADWS'' \<and> int (length (tok_value tok)) > last (indent lx) \<longrightarrow>
           token_generator lx tok =
             ([(insert_token ''INDENT'' tok ''end'', indent lx @ [int (length (tok_value tok))]),
               (tok, indent lx @ [int (length (tok_value tok))])],
              lx\<lparr>indent := indent lx @ [int (length (tok_value tok))],
                 logical_line_started := True\<rparr>, None)) \<and>
         (\<not> (tok_type tok = ''RAWLEADWS'' \<and> int (length (tok_value tok)) > last (indent lx)) \<and>
          \<not> list_all is_space (tok_value tok) \<longrightarrow>
           token_generator lx tok =
             ([], lx, Some (EdgeIndentationError ''Incorrect indentation at {position}''
                              (line (tok_end tok)) (column (tok_end tok))))) \<and>
         (\<not> (tok_type tok = ''RAWLEADWS'' \<and> int (length (tok_value tok)) > last (indent lx)) \<and>
          list_all is_space (tok_value tok) \<longrightarrow>
           token_generator lx tok =
             ([(tok, indent lx)],
              lx\<lparr>logical_line_started := \<not> is_layout_type (tok_type tok)\<rparr>, None))"
proof (intro conjI impI)
  assume a: "tok_type tok = ''RAWLEADWS'' \<and> int (length (tok_value tok)) > last (indent lx)"
  then have "\<not> is_layout_type (tok_type tok)" by (simp add: is_layout_type_def)
  with a st lls ne show "token_generator lx tok =
             ([(insert_token ''INDENT'' tok ''end'', indent lx @ [int (length (tok_value tok))]),
               (tok, indent lx @ [int (length (tok_value tok))])],
              lx\<lparr>indent := indent lx @ [int (length (tok_value tok))],
                 logical_line_started := True\<rparr>, None)"
    by (simp add: token_generator_def handle_indentation_def indent_raw_def Let_def)
next
  assume a: "\<not> (tok_type tok = ''RAWLEADWS'' \<and> int (length (tok_value tok)) > last (indent lx)) \<and>
          \<not> list_all is_space (tok_value tok)"
  then have "strip (tok_value tok) \<noteq> []" by (simp add: strip_Nil_iff)
  with a st lls ne ty show "token_generator lx tok =
             ([], lx, Some (EdgeIndentationError ''Incorrect indentation at {position}''
                              (line (tok_end tok)) (column (tok_end tok))))"
    by (auto simp add: token_generator_def handle_indentation_def indent_raw_def Let_def)
next
  assume a: "\<not> (tok_type tok = ''RAWLEADWS'' \<and> int (length (tok_value tok)) > last (indent lx)) \<and>
          list_all is_space (tok_value tok)"
  then have s: "strip (tok_value tok) = []" by (simp add: strip_Nil_iff)
  have same: "is_layout_type (tok_type tok) \<Longrightarrow> lx\<lparr>logical_line_started := False\<rparr> = lx"
    using lls by simp
  from a s st lls ne ty same show "token_generator lx tok =
             ([(tok, indent lx)],
              lx\<lparr>logical_line_started := \<not> is_layout_type (tok_type tok)\<rparr>, None)"
    by (auto simp add: token_generator_def handle_indentation_def indent_raw_def Let_def)
qed

lemma token_from_text_indent [simp]:
  "indent (snd (token_from_text lx ty txt)) = indent lx"
  "lstate (snd (token_from_text lx ty txt)) = lstate lx"
  "lnext_state (snd (token_from_text lx ty txt)) = lnext_state lx"
  "logical_line_started (snd (token_from_text lx ty txt)) = logical_line_started lx"
  "inputstr (snd (token_from_text lx ty txt)) = inputstr lx"
  "start (snd (token_from_text lx ty txt)) = start lx + length txt"
  by (simp_all add: token_from_text_def Let_def)

lemma token_generator_insensitive:
  "lstate lx = STATE_WS_INSENSITIVE \<Longrightarrow>
   token_generator lx tok =
     ([(tok, indent lx)],
      lx\<lparr>logical_line_started := (logical_line_started lx \<or> \<not> is_layout_type (tok_type tok))\<rparr>,
      None)"
  by (cases "logical_line_started lx")
     (auto simp: token_generator_def handle_indentation_def Let_def)

lemma ws_insensitive_step:
  assumes st: "lstate lx = STATE_WS_INSENSITIVE"
  shows "(first_match (common_rules group_re kws) (inputstr lx) (start lx) = None \<longrightarrow>
            lex_step group_re kws lx =
              ([], lx, Some (handle_error lx (take 1 (drop (start lx) (inputstr lx)))))) \<and>
         (\<forall>rule n. first_match (common_rules group_re kws) (inputstr lx) (start lx) = Some (rule, n) \<longrightarrow>
            (\<exists>lx'. lex_step group_re kws lx =
                     ([(fst (token_from_text lx (token rule)
                               (take n (drop (start lx) (inputstr lx)))), indent lx)], lx', None) \<and>
                   indent lx' = indent lx \<and>
                   (next_state rule = STATE_WS_SENSITIVE \<longrightarrow> lstate lx' = STATE_WS_SENSITIVE)))"
proof (intro conjI impI allI)
  assume "first_match (common_rules group_re kws) (inputstr lx) (start lx) = None"
  with st show "lex_step group_re kws lx =
              ([], lx, Some (handle_error lx (take 1 (drop (start lx) (inputstr lx)))))"
    by (simp add: lex_step_def states_def)
next
  fix rule n
  assume m: "first_match (common_rules group_re kws) (inputstr lx) (start lx) = Some (rule, n)"
  let ?txt = "take n (drop (start lx) (inputstr lx))"
  obtain tok lx1 where t: "token_from_text lx (token rule) ?txt = (tok, lx1)"
    by (cases "token_from_text lx (token rule) ?txt") auto
  from t have lx1: "lstate lx1 = lstate lx" "indent lx1 = indent lx"
    using token_from_text_indent [of lx "token rule" ?txt] by simp_all
  from lx1 st have g: "token_generator lx1 tok =
     ([(tok, indent lx)],
      lx1\<lparr>logical_line_started := (logical_line_started lx1 \<or> \<not> is_layout_type (tok_type tok))\<rparr>,
      None)"
    using token_generator_insensitive [of lx1 tok] by simp
  show "\<exists>lx'. lex_step group_re kws lx =
                     ([(fst (token_from_text lx (token rule) ?txt), indent lx)], lx', None) \<and>
                   indent lx' = indent lx \<and>
                   (next_state rule = STATE_WS_SENSITIVE \<longrightarrow> lstate lx' = STATE_WS_SENSITIVE)"
    using st m t g lx1
    by (auto simp add: lex_step_def states_def switch_state_def split: option.splits)
qed


text \<open>
  Claim C5. In state \<open>STATE_WS_SENSITIVE\<close>, outside a logical line, on a token that is not
  NEWLINE, WS or COMMENT and whose indent \<open>cur\<close> (its start column minus 1) is below the
  top of the stack: when \<open>cur\<close> is a recorded level, the stack is popped down to the
  levels up to \<open>cur\<close>, whose top is \<open>cur\<close>, one DEDENT (a token of type DEDENT with empty text, starting and ending where the
  token starts) is yielded per popped level, then the token, and nothing is raised; when \<open>cur\<close> is not a
  recorded level, \<open>EdgeIndentationError\<close> is raised with the token's start line and
  column (after one DEDENT for every popped level but the last). So the error is raised
  exactly when the indent matches no recorded level. The stack satisfies its invariant and
  columns are 1-based, as they are throughout a pass of \<open>lex\<close>.
\<close>

theorem code_unindent:
  assumes st: "lstate lx = STATE_WS_SENSITIVE"
    and lls: "\<not> logical_line_started lx"
    and ty: "\<not> is_layout_type (tok_type tok)"
    and ok: "indent_ok (indent lx)"
    and col: "1 \<le> column (tok_start tok)"
    and cur: "column (tok_start tok) - 1 = cur"
    and lt: "cur < last (indent lx)"
  shows "(cur \<in> set (indent lx) \<longrightarrow>
           (\<exists>evs. token_generator lx tok =
                    (evs,
                     lx\<lparr>indent := takeWhile (\<lambda>x. x \<le> cur) (indent lx),
                        logical_line_started := True\<rparr>, None) \<and>
                  map fst evs =
                    replicate (length (dropWhile (\<lambda>x. x \<le> cur) (indent lx)))
                      \<lparr>tok_value = '''', tok_type = ''DEDENT'', tok_text = '''',
                       tok_start = tok_start tok, tok_end = tok_start tok\<rparr> @ [tok] \<and>
                  0 < length (dropWhile (\<lambda>x. x \<le> cur) (indent lx)) \<and>
                  last (takeWhile (\<lambda>x. x \<le> cur) (indent lx)) = cur)) \<and>
         (cur \<notin> set (indent lx) \<longrightarrow>
           (\<exists>evs lx'. token_generator lx tok =
                    (evs, lx', Some (EdgeIndentationError ''Incorrect unindent at {position}''
                                      (line (tok_start tok)) (column (tok_start tok)))) \<and>
                  map fst evs =
                    replicate (length (dropWhile (\<lambda>x. x \<le> cur) (indent lx)) - 1)
                      \<lparr>tok_value = '''', tok_type = ''DEDENT'', tok_text = '''',
                       tok_start = tok_start tok, tok_end = tok_start tok\<rparr>))"
proof -
  from ok have ne: "indent lx \<noteq> []" by (simp add: indent_ok_def)
  have "\<not> last (indent lx) \<le> cur" using lt by simp
  then have "dropWhile (\<lambda>x. x \<le> cur) (indent lx) \<noteq> []"
    using ne by (metis dropWhile_eq_Nil_conv last_in_set)
  then have pos: "0 < length (dropWhile (\<lambda>x. x \<le> cur) (indent lx))" by simp
  from code_unindent_aux [OF st lls ty ok col cur lt] pos show ?thesis
    by (simp add: insert_token_def attrs_pos_def)
qed

theorem code_unindent_witness:
  "(\<exists>evs. token_generator (sample_lexer '''' STATE_WS_SENSITIVE False [0, 4, 8])
            (sample_token ''IDENT'' ''z'' 5) =
          (evs, sample_lexer '''' STATE_WS_SENSITIVE True [0, 4], None) \<and>
        map fst evs =
          [\<lparr>tok_value = '''', tok_type = ''DEDENT'', tok_text = '''',
            tok_start = \<lparr>line = 3, column = 5\<rparr>, tok_end = \<lparr>line = 3, column = 5\<rparr>\<rparr>,
           \<lparr>tok_value = ''z'', tok_type = ''IDENT'', tok_text = ''z'',
            tok_start = \<lparr>line = 3, column = 5\<rparr>, tok_end = \<lparr>line = 3, column = 6\<rparr>\<rparr>]) \<and>
   (\<exists>evs lx'. token_generator (sample_lexer '''' STATE_WS_SENSITIVE False [0, 4, 8])
            (sample_token ''IDENT'' ''z'' 3) =
          (evs, lx', Some (EdgeIndentationError ''Incorrect unindent at {position}'' 3 3)) \<and>
        map fst evs =
          [\<lparr>tok_value = '''', tok_type = ''DEDENT'', tok_text = '''',
            tok_start = \<lparr>line = 3, column = 3\<rparr>, tok_end = \<lparr>line = 3, column = 3\<rparr>\<rparr>])"
  using code_unindent [of "sample_lexer '''' STATE_WS_SENSITIVE False [0, 4, 8]"
                          "sample_token ''IDENT'' ''z'' 5" 4]
        code_unindent [of "sample_lexer '''' STATE_WS_SENSITIVE False [0, 4, 8]"
                          "sample_token ''IDENT'' ''z'' 3" 2]
  by (simp add: sample_lexer_def sample_token_def indent_ok_def is_layout_type_def)

text \<open>
  Claim C6. In state \<open>STATE_RAW_STRING\<close>, inside a logical line, on a RAWLEADWS token
  whose character count \<open>cur\<close> is below the top of the stack: an NL (type NL, empty text,
  starting and ending where the token starts) is yielded first; when \<open>cur\<close> is a recorded level, the stack is popped
  down to the levels up to \<open>cur\<close>, whose top is \<open>cur\<close>, with one DEDENT (type DEDENT,
  empty text, starting and ending where the token ends) per popped level, the pending state \<open>_next_state\<close> is set to
  \<open>STATE_WS_SENSITIVE\<close>, and the token is yielded with its type altered to WS (after
  which the loop body, for a rule that keeps the state as the RAWLEADWS rule does, moves
  the lexer to \<open>STATE_WS_SENSITIVE\<close> and clears the pending state); when
  \<open>cur\<close> is not a recorded level, \<open>EdgeIndentationError\<close> is raised with the token's end
  line and column.
\<close>

theorem raw_unindent:
  assumes st: "lstate lx = STATE_RAW_STRING"
    and lls: "logical_line_started lx"
    and ty: "tok_type tok = ''RAWLEADWS''"
    and ok: "indent_ok (indent lx)"
    and cur: "int (length (tok_value tok)) = cur"
    and lt: "cur < last (indent lx)"
  shows "(cur \<in> set (indent lx) \<longrightarrow>
           (\<exists>evs. token_generator lx tok =
                    (evs,
                     lx\<lparr>indent := takeWhile (\<lambda>x. x \<le> cur) (indent lx),
                        lnext_state := Some STATE_WS_SENSITIVE\<rparr>, None) \<and>
                  map fst evs =
                    \<lparr>tok_value = '''', tok_type = ''NL'', tok_text = '''',
                     tok_start = tok_start tok, tok_end = tok_start tok\<rparr> #
                    replicate (length (dropWhile (\<lambda>x. x \<le> cur) (indent lx)))
                      \<lparr>tok_value = '''', tok_type = ''DEDENT'', tok_text = '''',
                       tok_start = tok_end tok, tok_end = tok_end tok\<rparr> @
                    [tok\<lparr>tok_type := ''WS''\<rparr>] \<and>
                  0 < length (dropWhile (\<lambda>x. x \<le> cur) (indent lx)) \<and>
                  last (takeWhile (\<lambda>x. x \<le> cur) (indent lx)) = cur)) \<and>
         (cur \<notin> set (indent lx) \<longrightarrow>
           (\<exists>evs lx'. token_generator lx tok =
                    (evs, lx', Some (EdgeIndentationError ''Incorrect unindent at {position}''
                                      (line (tok_end tok)) (column (tok_end tok)))) \<and>
                  map fst evs =
                    \<lparr>tok_value = '''', tok_type = ''NL'', tok_text = '''',
                     tok_start = tok_start tok, tok_end = tok_start tok\<rparr> #
                    replicate (length (dropWhile (\<lambda>x. x \<le> cur) (indent lx)) - 1)
                      \<lparr>tok_value = '''', tok_type = ''DEDENT'', tok_text = '''',
                       tok_start = tok_end tok, tok_end = tok_end tok\<rparr>)) \<and>
         (next_state rule = STATE_KEEP \<longrightarrow>
            switch_state rule
              (lx\<lparr>indent := takeWhile (\<lambda>x. x \<le> cur) (indent lx),
                  lnext_state := Some STATE_WS_SENSITIVE\<rparr>) =
            lx\<lparr>indent := takeWhile (\<lambda>x. x \<le> cur) (indent lx),
               lstate := STATE_WS_SENSITIVE, lnext_state := None\<rparr>)"
proof -
  from ok have ne: "indent lx \<noteq> []" by (simp add: indent_ok_def)
  have "\<not> last (indent lx) \<le> cur" using lt by simp
  then have "dropWhile (\<lambda>x. x \<le> cur) (indent lx) \<noteq> []"
    using ne by (metis dropWhile_eq_Nil_conv last_in_set)
  then have pos: "0 < length (dropWhile (\<lambda>x. x \<le> cur) (indent lx))" by simp
  from raw_unindent_aux [OF st lls ty ok cur lt, of rule] pos show ?thesis
    by (simp add: insert_token_def attrs_pos_def)
qed

theorem raw_unindent_witness:
  "(\<exists>evs. token_generator (sample_lexer '''' STATE_RAW_STRING True [0, 4, 8])
            (sample_token ''RAWLEADWS'' ''    '' 1) =
          (evs, (sample_lexer '''' STATE_RAW_STRING True [0, 4])
                  \<lparr>lnext_state := Some STATE_WS_SENSITIVE\<rparr>, None) \<and>
        map fst evs =
          [\<lparr>tok_value = '''', tok_type = ''NL'', tok_text = '''',
            tok_start = \<lparr>line = 3, column = 1\<rparr>, tok_end = \<lparr>line = 3, column = 1\<rparr>\<rparr>,
           \<lparr>tok_value = '''', tok_type = ''DEDENT'', tok_text = '''',
            tok_start = \<lparr>line = 3, column = 5\<rparr>, tok_end = \<lparr>line = 3, column = 5\<rparr>\<rparr>,
           \<lparr>tok_value = ''    '', tok_type = ''WS'', tok_text = ''    '',
            tok_start = \<lparr>line = 3, column = 1\<rparr>, tok_end = \<lparr>line = 3, column = 5\<rparr>\<rparr>]) \<and>
   (\<exists>evs lx'. token_generator (sample_lexer '''' STATE_RAW_STRING True [0, 4, 8])
            (sample_token ''RAWLEADWS'' ''  '' 1) =
          (evs, lx', Some (EdgeIndentationError ''Incorrect unindent at {position}'' 3 3)) \<and>
        map fst evs =
          [\<lparr>tok_value = '''', tok_type = ''NL'', tok_text = '''',
            tok_start = \<lparr>line = 3, column = 1\<rparr>, tok_end = \<lparr>line = 3, column = 1\<rparr>\<rparr>,
           \<lparr>tok_value = '''', tok_type = ''DEDENT'', tok_text = '''',
            tok_start = \<lparr>line = 3, column = 3\<rparr>, tok_end = \<lparr>line = 3, column = 3\<rparr>\<rparr>]) \<and>
   switch_state \<lparr>token = ''RAWLEADWS'', next_state = STATE_KEEP, regexp = re_RAWLEADWS\<rparr>
     ((sample_lexer '''' STATE_RAW_STRING True [0, 4])\<lparr>lnext_state := Some STATE_WS_SENSITIVE\<rparr>) =
     sample_lexer '''' STATE_WS_SENSITIVE True [0, 4]"
  using raw_unindent [of "sample_lexer '''' STATE_RAW_STRING True [0, 4, 8]"
                          "sample_token ''RAWLEADWS'' ''    '' 1" 4
                          "\<lparr>token = ''RAWLEADWS'', next_state = STATE_KEEP, regexp = re_RAWLEADWS\<rparr>"]
        raw_unindent [of "sample_lexer '''' STATE_RAW_STRING True [0, 4, 8]"
                          "sample_token ''RAWLEADWS'' ''  '' 1" 2]
  by (simp add: sample_lexer_def sample_token_def indent_ok_def)

text \<open>
  Claim C7. In state \<open>STATE_RAW_STRING\<close>, outside a logical line, on a token that is not
  NEWLINE: a RAWLEADWS token longer than the top of the stack pushes its length and an
  INDENT (type INDENT, empty text, starting and ending where the token ends) is yielded
  before it; any other token with a
  character that is not white space raises \<open>EdgeIndentationError\<close> (``Incorrect
  indentation'') at the token's end, nothing being yielded; any other token of white space
  only is yielded alone, nothing is raised and the stack is unchanged.
\<close>

theorem raw_must_indent:
  assumes st: "lstate lx = STATE_RAW_STRING"
    and lls: "\<not> logical_line_started lx"
    and ty: "tok_type tok \<noteq> ''NEWLINE''"
    and ne: "indent lx \<noteq> []"
  shows "(tok_type tok = ''RAWLEADWS'' \<and> int (length (tok_value tok)) > last (indent lx) \<longrightarrow>
           token_generator lx tok =
             ([(\<lparr>tok_value = '''', tok_type = ''INDENT'', tok_text = '''',
                 tok_start = tok_end tok, tok_end = tok_end tok\<rparr>,
                indent lx @ [int (length (tok_value tok))]),
               (tok, indent lx @ [int (length (tok_value tok))])],
              lx\<lparr>indent := indent lx @ [int (length (tok_value tok))],
                 logical_line_started := True\<rparr>, None)) \<and>
         (\<not> (tok_type tok = ''RAWLEADWS'' \<and> int (length (tok_value tok)) > last (indent lx)) \<and>
          \<not> list_all is_space (tok_value tok) \<longrightarrow>
           token_generator lx tok =
             ([], lx, Some (EdgeIndentationError ''Incorrect indentation at {position}''
                              (line (tok_end tok)) (column (tok_end tok))))) \<and>
         (\<not> (tok_type tok = ''RAWLEADWS'' \<and> int (length (tok_value tok)) > last (indent lx)) \<and>
          list_all is_space (tok_value tok) \<longrightarrow>
           token_generator lx tok =
             ([(tok, indent lx)],
              lx\<lparr>logical_line_started := \<not> is_layout_type (tok_type tok)\<rparr>, None))"
  using raw_must_indent_aux [OF st lls ty ne]
  by (simp add: insert_token_def attrs_pos_def)

theorem raw_must_indent_witness:
  "token_generator (sample_lexer '''' STATE_RAW_STRING False [0, 4])
     (sample_token ''RAWLEADWS'' ''        '' 1) =
     ([(\<lparr>tok_value = '''', tok_type = ''INDENT'', tok_text = '''',
         tok_start = \<lparr>line = 3, column = 9\<rparr>, tok_end = \<lparr>line = 3, column = 9\<rparr>\<rparr>, [0, 4, 8]),
       (\<lparr>tok_value = ''        '', tok_type = ''RAWLEADWS'', tok_text = ''        '',
         tok_start = \<lparr>line = 3, column = 1\<rparr>, tok_end = \<lparr>line = 3, column = 9\<rparr>\<rparr>, [0, 4, 8])],
      sample_lexer '''' STATE_RAW_STRING True [0, 4, 8], None) \<and>
   token_generator (sample_lexer '''' STATE_RAW_STRING False [0, 4])
     (sample_token ''RAWSTRING'' ''x'' 1) =
     ([], sample_lexer '''' STATE_RAW_STRING False [0, 4],
      Some (EdgeIndentationError ''Incorrect indentation at {position}'' 3 2)) \<and>
   token_generator (sample_lexer '''' STATE_RAW_STRING False [0, 4])
     (sample_token ''RAWLEADWS'' ''  '' 1) =
     ([(\<lparr>tok_value = ''  '', tok_type = ''RAWLEADWS'', tok_text = ''  '',
         tok_start = \<lparr>line = 3, column = 1\<rparr>, tok_end = \<lparr>line = 3, column = 3\<rparr>\<rparr>, [0, 4])],
      sample_lexer '''' STATE_RAW_STRING True [0, 4], None)"
  using raw_must_indent [of "sample_lexer '''' STATE_RAW_STRING False [0, 4]"
                            "sample_token ''RAWLEADWS'' ''        '' 1"]
        raw_must_indent [of "sample_lexer '''' STATE_RAW_STRING False [0, 4]"
                            "sample_token ''RAWSTRING'' ''x'' 1"]
        raw_must_indent [of "sample_lexer '''' STATE_RAW_STRING False [0, 4]"
                            "sample_token ''RAWLEADWS'' ''  '' 1"]
  by (simp add: sample_lexer_def sample_token_def is_layout_type_def is_space_def code_def)

lemmas char_class_defs = code_def is_newline_def is_space_def is_decimal_def is_alpha_def
  is_numeric_def is_word_def is_blank_def not_newline_def is_mapping_char_def
  is_iconst_stop_def is_decdigit_us_def is_exp_char_def is_sign_char_def is_tag_letter_def
  is_tag_char_def is_ident_start_def is_ident_char_def

lemmas pattern_defs = chr_at_def run_def lit_def at_eol_def at_bol_def re_literal_def
  re_COMMENT_def re_WS_def re_NEWLINE_def re_MAPPING_def re_ICONST_def re_intpart_def
  re_exppart_def re_FCONST_exp_def re_FCONST_def re_quote_def re_STRING_def re_IDENT_def
  after_turnstile_def re_RAW_NEWLINE_def re_RAW_REST_def re_RAW_BLANK_LINE_def
  re_RAWLEADWS_def re_RAW_LINE_def group_literal_def


section \<open>The invariant along a pass of \<open>lex\<close>\<close>

lemma unindent_frame:
  "unindent lx cur tok pos = (evs, lx', err) \<Longrightarrow> lx' = lx\<lparr>indent := indent lx'\<rparr>"
proof (induction lx cur tok pos arbitrary: evs lx' err rule: unindent.induct)
  case (1 lx cur tok pos)
  let ?lx1 = "lx\<lparr>indent := butlast (indent lx)\<rparr>"
  show ?case
  proof (cases "indent lx \<noteq> [] \<and> cur < last (indent lx) \<and> indent ?lx1 \<noteq> [] \<and>
                \<not> last (indent ?lx1) < cur")
    case False
    with "1.prems" show ?thesis
      by (subst (asm) unindent.simps) (auto simp: Let_def split: if_splits)
  next
    case True
    obtain evs1 lx2 err1 where rec: "unindent ?lx1 cur tok pos = (evs1, lx2, err1)"
      by (cases "unindent ?lx1 cur tok pos") auto
    from True "1.IH" [OF _ _ refl _ _ rec] have "lx2 = ?lx1\<lparr>indent := indent lx2\<rparr>"
      by simp
    moreover from "1.prems" True rec have "lx' = lx2"
      by (subst (asm) unindent.simps) (simp add: Let_def)
    ultimately show ?thesis by simp
  qed
qed


lemma token_generator_inv:
  assumes ok: "indent_ok (indent lx)" and col: "1 \<le> column (tok_start tok)"
    and tg: "token_generator lx tok = (evs, lx', err)"
  shows "indent_ok (indent lx') \<and> list_all (\<lambda>e. indent_ok (snd e)) evs \<and>
         err \<noteq> Some IndexError \<and> err \<noteq> Some KeyError"
proof -
  from ok have ne: "indent lx \<noteq> []" by (simp add: indent_ok_def)
  have code: "\<And>evs1 lx1 err1. indent_code lx tok = (evs1, lx1, err1) \<Longrightarrow>
      indent_ok (indent lx1) \<and> list_all (\<lambda>e. indent_ok (snd e)) evs1 \<and>
      err1 \<noteq> Some IndexError \<and> err1 \<noteq> Some KeyError"
  proof -
    fix evs1 lx1 err1
    assume a: "indent_code lx tok = (evs1, lx1, err1)"
    from col have c0: "0 \<le> column (tok_start tok) - 1" by simp
    show "indent_ok (indent lx1) \<and> list_all (\<lambda>e. indent_ok (snd e)) evs1 \<and>
      err1 \<noteq> Some IndexError \<and> err1 \<noteq> Some KeyError"
      using a ne ok unindent_inv [OF ok c0, of tok "''start''" evs1 lx1 err1]
      by (auto simp: indent_code_def Let_def indent_ok_snoc split: if_splits)
  qed
  have raw: "\<And>evs1 lx1 tok1 err1. indent_raw lx tok = (evs1, lx1, tok1, err1) \<Longrightarrow>
      indent_ok (indent lx1) \<and> list_all (\<lambda>e. indent_ok (snd e)) evs1 \<and>
      err1 \<noteq> Some IndexError \<and> err1 \<noteq> Some KeyError"
  proof -
    fix evs1 lx1 tok1 err1
    assume a: "indent_raw lx tok = (evs1, lx1, tok1, err1)"
    have c0: "0 \<le> int (length (tok_value tok))" by simp
    obtain evs2 lx2 err2 where
      u: "unindent lx (int (length (tok_value tok))) tok ''end'' = (evs2, lx2, err2)"
      by (cases "unindent lx (int (length (tok_value tok))) tok ''end''") auto
    from unindent_inv [OF ok c0 u]
    show "indent_ok (indent lx1) \<and> list_all (\<lambda>e. indent_ok (snd e)) evs1 \<and>
      err1 \<noteq> Some IndexError \<and> err1 \<noteq> Some KeyError"
      using a ne ok u
      by (auto simp: indent_raw_def Let_def indent_ok_snoc split: if_splits option.splits)
  qed
  obtain evs1 lx1 tok1 err1 where
    hi: "handle_indentation lx tok = (evs1, lx1, tok1, err1)"
    by (cases "handle_indentation lx tok") auto
  have h: "indent_ok (indent lx1) \<and> list_all (\<lambda>e. indent_ok (snd e)) evs1 \<and>
      err1 \<noteq> Some IndexError \<and> err1 \<noteq> Some KeyError"
    using hi code raw ok
    by (auto simp: handle_indentation_def split: if_splits prod.splits)
  show ?thesis
    using tg hi h
    by (auto simp: token_generator_def Let_def split: option.splits if_splits)
qed


lemma token_generator_frame:
  assumes tg: "token_generator lx tok = (evs, lx', err)"
  shows "start lx' = start lx \<and> inputstr lx' = inputstr lx \<and> colno lx' = colno lx \<and>
         lineno lx' = lineno lx \<and> lstate lx' = lstate lx"
proof -
  have u: "\<And>cur pos evs1 lx1 err1. unindent lx cur tok pos = (evs1, lx1, err1) \<Longrightarrow>
      start lx1 = start lx \<and> inputstr lx1 = inputstr lx \<and> colno lx1 = colno lx \<and>
      lineno lx1 = lineno lx \<and> lstate lx1 = lstate lx"
  proof -
    fix cur pos evs1 lx1 err1
    assume "unindent lx cur tok pos = (evs1, lx1, err1)"
    from unindent_frame [OF this] have "lx1 = lx\<lparr>indent := indent lx1\<rparr>" .
    then have "start lx1 = start (lx\<lparr>indent := indent lx1\<rparr>)"
      "inputstr lx1 = inputstr (lx\<lparr>indent := indent lx1\<rparr>)"
      "colno lx1 = colno (lx\<lparr>indent := indent lx1\<rparr>)"
      "lineno lx1 = lineno (lx\<lparr>indent := indent lx1\<rparr>)"
      "lstate lx1 = lstate (lx\<lparr>indent := indent lx1\<rparr>)"
      by simp_all
    then show "start lx1 = start lx \<and> inputstr lx1 = inputstr lx \<and> colno lx1 = colno lx \<and>
      lineno lx1 = lineno lx \<and> lstate lx1 = lstate lx"
      by simp
  qed
  obtain evs1 lx1 tok1 err1 where
    hi: "handle_indentation lx tok = (evs1, lx1, tok1, err1)"
    by (cases "handle_indentation lx tok") auto
  have "start lx1 = start lx \<and> inputstr lx1 = inputstr lx \<and> colno lx1 = colno lx \<and>
      lineno lx1 = lineno lx \<and> lstate lx1 = lstate lx"
    using hi u
    by (auto simp: handle_indentation_def indent_code_def indent_raw_def Let_def
             split: if_splits prod.splits option.splits)
  with tg hi show ?thesis
    by (auto simp: token_generator_def Let_def split: option.splits if_splits)
qed

lemma token_from_text_fields:
  "token_from_text lx ty txt = (tok, lx1) \<Longrightarrow>
     indent lx1 = indent lx \<and> lstate lx1 = lstate lx \<and> inputstr lx1 = inputstr lx \<and>
     start lx1 = start lx + length txt \<and> column (tok_start tok) = colno lx \<and>
     (1 \<le> colno lx \<longrightarrow> 1 \<le> colno lx1)"
  by (auto simp: token_from_text_def Let_def split: if_splits)

lemma lex_step_inv:
  assumes inv: "lexer_inv lx" and ls: "lex_step group_re kws lx = (evs, lx', err)"
  shows "lexer_inv lx' \<and> list_all (\<lambda>e. indent_ok (snd e)) evs \<and> inputstr lx' = inputstr lx \<and>
         err \<noteq> Some IndexError"
proof (cases "states group_re kws (lstate lx)")
  case None
  with ls inv show ?thesis by (auto simp: lex_step_def)
next
  case (Some rules)
  show ?thesis
  proof (cases "first_match rules (inputstr lx) (start lx)")
    case None
    with Some ls inv show ?thesis by (auto simp: lex_step_def handle_error_def)
  next
    case (Some m)
    obtain rule n where m: "m = (rule, n)" by (cases m) auto
    let ?txt = "take n (drop (start lx) (inputstr lx))"
    obtain tok lx1 where t: "token_from_text lx (token rule) ?txt = (tok, lx1)"
      by (cases "token_from_text lx (token rule) ?txt") auto
    obtain evs2 lx2 err2 where g: "token_generator lx1 tok = (evs2, lx2, err2)"
      by (cases "token_generator lx1 tok") auto
    from token_from_text_fields [OF t] inv
    have f1: "indent_ok (indent lx1)" "1 \<le> column (tok_start tok)" "1 \<le> colno lx1"
      "inputstr lx1 = inputstr lx"
      by (simp_all add: lexer_inv_def)
    from token_generator_inv [OF f1(1,2) g] token_generator_frame [OF g] f1
    have f2: "lexer_inv lx2" "list_all (\<lambda>e. indent_ok (snd e)) evs2" "inputstr lx2 = inputstr lx"
      "err2 \<noteq> Some IndexError"
      by (simp_all add: lexer_inv_def)
    from ls \<open>states group_re kws (lstate lx) = Some rules\<close> Some m t g f2
    show ?thesis
      by (auto simp: lex_step_def lexer_inv_def switch_state_def split: option.splits if_splits)
  qed
qed

lemma drive_inv:
  "lexer_inv lx \<Longrightarrow> drive fuel group_re kws lx = (evs, lx', out) \<Longrightarrow>
   lexer_inv lx' \<and> list_all (\<lambda>e. indent_ok (snd e)) evs \<and> inputstr lx' = inputstr lx \<and>
   out \<noteq> Raised IndexError"
proof (induction fuel arbitrary: lx evs lx' out)
  case 0
  then show ?case by (auto split: if_splits)
next
  case (Suc fuel)
  show ?case
  proof (cases "start lx < length (inputstr lx)")
    case False
    with Suc.prems show ?thesis by auto
  next
    case True
    obtain evs1 lx1 err1 where s: "lex_step group_re kws lx = (evs1, lx1, err1)"
      by (cases "lex_step group_re kws lx") auto
    from lex_step_inv [OF Suc.prems(1) s]
    have i1: "lexer_inv lx1" "list_all (\<lambda>e. indent_ok (snd e)) evs1" "inputstr lx1 = inputstr lx"
      "err1 \<noteq> Some IndexError"
      by simp_all
    show ?thesis
    proof (cases err1)
      case (Some e)
      with Suc.prems(2) True s i1 show ?thesis by auto
    next
      case None
      obtain evs2 lx2 out2 where d: "drive fuel group_re kws lx1 = (evs2, lx2, out2)"
        by (cases "drive fuel group_re kws lx1") auto
      from Suc.IH [OF i1(1) d] i1 Suc.prems(2) True s None d
      show ?thesis by auto
    qed
  qed
qed

lemma token_from_text_empty:
  "ty \<noteq> NL \<Longrightarrow> token_from_text lx ty [] =
     (\<lparr>tok_value = [], tok_type = ty, tok_text = [],
       tok_start = \<lparr>line = lineno lx, column = colno lx\<rparr>,
       tok_end = \<lparr>line = lineno lx, column = colno lx\<rparr>\<rparr>, lx)"
  by (simp add: token_from_text_def Let_def)

lemma eof_dedents_ok:
  "indent_ok (indent lx) \<Longrightarrow>
   \<exists>evs. eof_dedents lx = (evs, lx\<lparr>indent := [0]\<rparr>, None) \<and>
         map fst evs = replicate (length (indent lx) - 1) (fst (token_from_text lx ''DEDENT'' [])) \<and>
         list_all (\<lambda>e. indent_ok (snd e)) evs"
proof (induction lx rule: eof_dedents.induct)
  case (1 lx)
  from "1.prems" obtain ys y where stk: "indent lx = ys @ [y]"
    by (cases "indent lx" rule: rev_cases) (auto simp: indent_ok_def)
  have nl: "''DEDENT'' \<noteq> NL" by (simp add: NL_def)
  show ?case
  proof (cases "ys = []")
    case True
    with "1.prems" stk have "y = 0" by (simp add: indent_ok_def)
    with stk True show ?thesis
      by (subst eof_dedents.simps) simp
  next
    case False
    let ?lx1 = "lx\<lparr>indent := butlast (indent lx)\<rparr>"
    from "1.prems" stk False have pos: "0 < y"
      by (cases ys) (auto simp: indent_ok_def sorted_wrt_append)
    from indent_ok_butlast [OF "1.prems"] stk False have ok1: "indent_ok (indent ?lx1)" by simp
    have tft: "token_from_text ?lx1 ''DEDENT'' [] = (fst (token_from_text lx ''DEDENT'' []), ?lx1)"
      by (simp add: token_from_text_empty [OF nl])
    from "1.IH" [OF _ _ refl tft [symmetric] ok1] stk pos
    obtain evs where rec: "eof_dedents ?lx1 = (evs, ?lx1\<lparr>indent := [0]\<rparr>, None)"
      and toks: "map fst evs = replicate (length ys - 1) (fst (token_from_text ?lx1 ''DEDENT'' []))"
      and oks: "list_all (\<lambda>e. indent_ok (snd e)) evs"
      by auto
    have same: "fst (token_from_text ?lx1 ''DEDENT'' []) = fst (token_from_text lx ''DEDENT'' [])"
      by (simp add: token_from_text_empty [OF nl])
    from False have len: "Suc (length ys - 1) = length ys" by (cases ys) auto
    show ?thesis
      using stk pos rec toks oks ok1 tft same len
      by (subst eof_dedents.simps) (simp add: Let_def replicate_Suc [symmetric] del: replicate_Suc)
  qed
qed


lemma get_eof_tokens_ok:
  assumes ok: "indent_ok (indent lx)"
  shows "\<exists>evs. get_eof_tokens lx = (evs, lx\<lparr>indent := [0]\<rparr>, None) \<and>
         map fst evs =
           (if logical_line_started lx then [fst (token_from_text lx ''NL'' [])] else []) @
           replicate (length (indent lx) - 1) (fst (token_from_text lx ''DEDENT'' [])) \<and>
         list_all (\<lambda>e. indent_ok (snd e)) evs"
proof -
  have nl: "''NL'' \<noteq> NL" by (simp add: NL_def)
  from eof_dedents_ok [OF ok] obtain evs where
    e: "eof_dedents lx = (evs, lx\<lparr>indent := [0]\<rparr>, None)"
    and m: "map fst evs = replicate (length (indent lx) - 1) (fst (token_from_text lx ''DEDENT'' []))"
    and a: "list_all (\<lambda>e. indent_ok (snd e)) evs"
    by blast
  have one: "\<not> 1 < length (indent lx) \<Longrightarrow> indent lx = [0]"
    using ok by (cases "indent lx") (auto simp: indent_ok_def)
  show ?thesis
  proof (cases "1 < length (indent lx)")
    case True
    with e m a ok show ?thesis
      by (simp add: get_eof_tokens_def token_from_text_empty [OF nl])
  next
    case False
    from one [OF False] have i: "indent lx = [0]" .
    then have "lx\<lparr>indent := [0]\<rparr> = lx" by (metis lexer_indent_same)
    with i ok show ?thesis
      by (simp add: get_eof_tokens_def token_from_text_empty [OF nl])
  qed
qed

lemma drive_finished:
  "drive fuel group_re kws lx = (evs, lx', Finished) \<Longrightarrow> length (inputstr lx') \<le> start lx'"
proof (induction fuel arbitrary: lx evs)
  case 0
  then show ?case by (auto split: if_splits)
next
  case (Suc fuel)
  then show ?case
    by (auto split: if_splits prod.splits option.splits)
qed

lemma lex_init_inv: "lexer_inv (lex_init (setinputstr lx src))"
  by (simp add: lexer_inv_def lex_init_def setinputstr_def indent_ok_def)

text \<open>
  Claim C1. When a pass of \<open>lex\<close> ends without raising (outcome \<open>Finished\<close>), the driver
  loop has reached the end of the input, and what follows the loop's tokens is exactly the
  output of \<open>get_eof_tokens\<close>: one NL token if and only if a logical line is open when the
  loop ends, then one DEDENT token for every level of the indent stack above the base
  level; the indent stack is then \<open>[0]\<close>.
\<close>

theorem eof_closing_tokens:
  assumes run: "lex fuel group_re kws (setinputstr lx src) = (evs, lx', Finished)"
  shows "\<exists>evs0 lx1.
           drive fuel group_re kws (lex_init (setinputstr lx src)) = (evs0, lx1, Finished) \<and>
           length src \<le> start lx1 \<and>
           map fst evs =
             map fst evs0 @
             (if logical_line_started lx1 then [fst (token_from_text lx1 ''NL'' [])] else []) @
             replicate (length (indent lx1) - 1) (fst (token_from_text lx1 ''DEDENT'' [])) \<and>
           indent lx' = [0]"
proof -
  obtain evs0 lx1 out where d: "drive fuel group_re kws (lex_init (setinputstr lx src)) = (evs0, lx1, out)"
    by (cases "drive fuel group_re kws (lex_init (setinputstr lx src))") auto
  from drive_inv [OF lex_init_inv d]
  have inv: "indent_ok (indent lx1)" and src: "inputstr lx1 = src"
    by (simp_all add: lexer_inv_def lex_init_def setinputstr_def)
  from get_eof_tokens_ok [OF inv] obtain evs1 where
    e: "get_eof_tokens lx1 = (evs1, lx1\<lparr>indent := [0]\<rparr>, None)"
    and m: "map fst evs1 =
           (if logical_line_started lx1 then [fst (token_from_text lx1 ''NL'' [])] else []) @
           replicate (length (indent lx1) - 1) (fst (token_from_text lx1 ''DEDENT'' []))"
    by blast
  from run d e have out: "out = Finished"
    by (cases out) (auto simp: lex_def)
  from run d e out have r: "evs = evs0 @ evs1" "lx' = lx1\<lparr>indent := [0]\<rparr>"
    by (auto simp: lex_def)
  from drive_finished d out src have "length src \<le> start lx1" by blast
  with d out r m show ?thesis by simp
qed

text \<open>
  Claim C2. In a pass of \<open>lex\<close> on any input, with any keyword table and keyword patterns
  and however far the pass gets (any fuel, so any number of passes of the loop, up to an
  exception or the end of the input), the indent stack satisfies its invariant each time a
  token is yielded and when the pass stops: it is not empty, its first element is 0 and
  it is strictly increasing. \<open>lex\<close> resets it to \<open>[0]\<close> before the loop, whatever an
  earlier pass left in the lexer object. Reading the top of the stack never fails.
\<close>

theorem indent_stack_invariant:
  assumes run: "lex fuel group_re kws (setinputstr lx src) = (evs, lx', out)"
  shows "indent (lex_init (setinputstr lx src)) = [0] \<and>
         list_all (\<lambda>e. indent_ok (snd e)) evs \<and> indent_ok (indent lx') \<and>
         out \<noteq> Raised IndexError"
proof -
  obtain evs0 lx1 out0 where d: "drive fuel group_re kws (lex_init (setinputstr lx src)) = (evs0, lx1, out0)"
    by (cases "drive fuel group_re kws (lex_init (setinputstr lx src))") auto
  from drive_inv [OF lex_init_inv d]
  have inv: "indent_ok (indent lx1)" "list_all (\<lambda>e. indent_ok (snd e)) evs0"
    "out0 \<noteq> Raised IndexError"
    by (simp_all add: lexer_inv_def)
  from get_eof_tokens_ok [OF inv(1)] obtain evs1 where
    e: "get_eof_tokens lx1 = (evs1, lx1\<lparr>indent := [0]\<rparr>, None)"
    and a: "list_all (\<lambda>e. indent_ok (snd e)) evs1"
    by blast
  have i0: "indent (lex_init (setinputstr lx src)) = [0]"
    by (simp add: lex_init_def)
  show ?thesis
  proof (cases out0)
    case Finished
    with run d e have "evs = evs0 @ evs1" "lx' = lx1\<lparr>indent := [0]\<rparr>" "out = Finished"
      by (auto simp: lex_def)
    with inv a i0 show ?thesis by (simp add: indent_ok_def)
  next
    case (Raised x)
    with run d have "evs = evs0" "lx' = lx1" "out = out0"
      by (auto simp: lex_def)
    with inv i0 show ?thesis by simp
  next
    case OutOfFuel
    with run d have "evs = evs0" "lx' = lx1" "out = out0"
      by (auto simp: lex_def)
    with inv i0 show ?thesis by simp
  qed
qed

section \<open>Rule dispatch and termination\<close>

lemma first_match_Some:
  "first_match rules s i = Some (r, n) \<Longrightarrow> r \<in> set rules \<and> regexp r s i = Some n"
  by (induction rules) (auto split: option.splits)

lemma re_quote_pos: "re_quote s i = Some q \<Longrightarrow> 0 < q"
  by (auto simp: re_quote_def Let_def split: if_splits)

lemma re_STRING_pos: "re_STRING s i = Some n \<Longrightarrow> 0 < n"
  by (auto simp: re_STRING_def split: option.splits dest: re_quote_pos)

lemma re_FCONST_exp_pos: "re_FCONST_exp s i = Some n \<Longrightarrow> 0 < n"
  by (auto simp: re_FCONST_exp_def Let_def split: if_splits)

lemma re_FCONST_pos: "re_FCONST s i = Some n \<Longrightarrow> 0 < n"
  by (auto simp: re_FCONST_def Let_def split: if_splits)

lemma re_literal_pos: "w \<noteq> [] \<Longrightarrow> re_literal w s i = Some n \<Longrightarrow> 0 < n"
  by (auto simp: re_literal_def split: if_splits)

lemma raw_string_rules_pos:
  "r \<in> set raw_string_rules \<Longrightarrow> regexp r s i = Some n \<Longrightarrow> 0 < n"
  by (auto simp: raw_string_rules_def re_RAW_NEWLINE_def re_RAW_REST_def re_RAW_BLANK_LINE_def
        re_RAWLEADWS_def re_RAW_LINE_def Let_def split: if_splits)

lemma common_rules_pos:
  assumes kw: "\<forall>val \<in> fst ` set kws. \<forall>s i n. group_re val s i = Some n \<longrightarrow> 0 < n"
    and r: "r \<in> set (common_rules group_re kws)" and m: "regexp r s i = Some n"
  shows "0 < n"
proof (cases "r \<in> set (keyword_rules group_re kws)")
  case True
  then obtain val tok where "(val, tok) \<in> set kws" "regexp r = group_re val"
    by (auto simp: keyword_rules_def)
  with kw m show ?thesis by force
next
  case False
  with r have "r \<in> set (drop (length (keyword_rules group_re kws)) (common_rules group_re kws))"
    by (simp add: common_rules_def)
  then show ?thesis
    using m
    by (auto simp: common_rules_def re_COMMENT_def re_WS_def re_NEWLINE_def re_MAPPING_def
          re_ICONST_def re_IDENT_def Let_def
          dest: re_STRING_pos re_FCONST_exp_pos re_FCONST_pos re_literal_pos [rotated]
          split: if_splits)
qed


lemma states_pos:
  assumes kw: "\<forall>val \<in> fst ` set kws. \<forall>s i n. group_re val s i = Some n \<longrightarrow> 0 < n"
    and st: "states group_re kws st = Some rules"
    and r: "r \<in> set rules" and m: "regexp r s i = Some n"
  shows "0 < n"
  using st r m common_rules_pos [OF kw _ m] raw_string_rules_pos [OF _ m]
  by (auto simp: states_def split: if_splits)

lemma lex_step_advances:
  assumes kw: "\<forall>val \<in> fst ` set kws. \<forall>s i n. group_re val s i = Some n \<longrightarrow> 0 < n"
    and lt: "start lx < length (inputstr lx)"
    and ls: "lex_step group_re kws lx = (evs, lx', None)"
  shows "start lx < start lx' \<and> inputstr lx' = inputstr lx"
proof -
  from ls obtain rules where st: "states group_re kws (lstate lx) = Some rules"
    by (cases "states group_re kws (lstate lx)") (auto simp: lex_step_def)
  from ls st obtain rule n where
    m: "first_match rules (inputstr lx) (start lx) = Some (rule, n)"
    by (cases "first_match rules (inputstr lx) (start lx)") (auto simp: lex_step_def)
  from first_match_Some [OF m] states_pos [OF kw st] have n: "0 < n" by blast
  let ?txt = "take n (drop (start lx) (inputstr lx))"
  obtain tok lx1 where t: "token_from_text lx (token rule) ?txt = (tok, lx1)"
    by (cases "token_from_text lx (token rule) ?txt") auto
  obtain evs2 lx2 err2 where g: "token_generator lx1 tok = (evs2, lx2, err2)"
    by (cases "token_generator lx1 tok") auto
  from token_from_text_fields [OF t] token_generator_frame [OF g]
  have f: "start lx2 = start lx + length ?txt" "inputstr lx2 = inputstr lx" by simp_all
  from ls st m t g have "start lx' = start lx2" "inputstr lx' = inputstr lx2"
    by (auto simp: lex_step_def switch_state_def split: option.splits if_splits)
  with f have s: "start lx' = start lx + length ?txt" "inputstr lx' = inputstr lx" by simp_all
  from lt n have "0 < length ?txt" by simp
  with s show ?thesis by simp
qed

lemma drive_terminates:
  assumes kw: "\<forall>val \<in> fst ` set kws. \<forall>s i n. group_re val s i = Some n \<longrightarrow> 0 < n"
  shows "length (inputstr lx) - start lx \<le> fuel \<Longrightarrow>
         snd (snd (drive fuel group_re kws lx)) \<noteq> OutOfFuel"
proof (induction fuel arbitrary: lx)
  case 0
  then show ?case by simp
next
  case (Suc fuel)
  show ?case
  proof (cases "start lx < length (inputstr lx)")
    case False
    then show ?thesis by simp
  next
    case True
    obtain evs1 lx1 err1 where s: "lex_step group_re kws lx = (evs1, lx1, err1)"
      by (cases "lex_step group_re kws lx") auto
    show ?thesis
    proof (cases err1)
      case (Some e)
      with True s show ?thesis by simp
    next
      case None
      from lex_step_advances [OF kw True s [unfolded None]] Suc.prems True
      have "length (inputstr lx1) - start lx1 \<le> fuel" by auto
      from Suc.IH [OF this] True s None show ?thesis
        by (auto split: prod.splits)
    qed
  qed
qed

lemma drive_more_fuel:
  "snd (snd (drive fuel group_re kws lx)) \<noteq> OutOfFuel \<Longrightarrow>
   drive (fuel + k) group_re kws lx = drive fuel group_re kws lx"
proof (induction fuel arbitrary: lx)
  case 0
  then show ?case by (cases k) (auto split: if_splits)
next
  case (Suc fuel)
  show ?case
  proof (cases "start lx < length (inputstr lx)")
    case False
    then show ?thesis by simp
  next
    case True
    obtain evs1 lx1 err1 where s: "lex_step group_re kws lx = (evs1, lx1, err1)"
      by (cases "lex_step group_re kws lx") auto
    show ?thesis
    proof (cases err1)
      case (Some e)
      with True s show ?thesis by simp
    next
      case None
      with Suc.prems True s have "snd (snd (drive fuel group_re kws lx1)) \<noteq> OutOfFuel"
        by (auto split: prod.splits)
      from Suc.IH [OF this] True s None show ?thesis by simp
    qed
  qed
qed

lemma lex_more_fuel:
  "snd (snd (lex fuel group_re kws lx)) \<noteq> OutOfFuel \<Longrightarrow>
   lex (fuel + k) group_re kws lx = lex fuel group_re kws lx"
proof -
  assume a: "snd (snd (lex fuel group_re kws lx)) \<noteq> OutOfFuel"
  then have "snd (snd (drive fuel group_re kws (lex_init lx))) \<noteq> OutOfFuel"
    by (auto simp: lex_def split: prod.splits outcome.splits)
  from drive_more_fuel [OF this] show ?thesis
    by (simp add: lex_def)
qed

text \<open>
  Claim C8. Provided every keyword pattern matches only non-empty text (the keyword
  patterns are built outside the sources at hand): in every state, a match of any rule
  of the state's rule list consumes at least one character; a pass of the driver loop
  that does not raise moves the cursor strictly forward; and \<open>lex\<close> ends (the input is
  exhausted or an exception is raised) within as many passes of the loop as the input has
  characters, with the same result for any larger number of passes allowed.
\<close>

theorem matches_consume_input:
  assumes kw: "\<forall>val \<in> fst ` set kws. \<forall>s i n. group_re val s i = Some n \<longrightarrow> 0 < n"
  shows "(\<forall>st rules r s i n.
            states group_re kws st = Some rules \<longrightarrow> r \<in> set rules \<longrightarrow>
            regexp r s i = Some n \<longrightarrow> 0 < n) \<and>
         (\<forall>lx evs lx'.
            start lx < length (inputstr lx) \<longrightarrow> lex_step group_re kws lx = (evs, lx', None) \<longrightarrow>
            start lx < start lx') \<and>
         (\<forall>lx src fuel.
            length src \<le> fuel \<longrightarrow>
            snd (snd (lex fuel group_re kws (setinputstr lx src))) \<noteq> OutOfFuel \<and>
            lex fuel group_re kws (setinputstr lx src) =
              lex (length src) group_re kws (setinputstr lx src))"
proof (intro conjI allI impI)
  fix st rules r s i n
  assume "states group_re kws st = Some rules" "r \<in> set rules" "regexp r s i = Some n"
  then show "0 < n" by (rule states_pos [OF kw])
next
  fix lx evs lx'
  assume "start lx < length (inputstr lx)" "lex_step group_re kws lx = (evs, lx', None)"
  with lex_step_advances [OF kw] show "start lx < start lx'" by blast
next
  fix lx :: lexer and src :: string and fuel :: nat
  assume le: "length src \<le> fuel"
  have "length (inputstr (lex_init (setinputstr lx src))) -
          start (lex_init (setinputstr lx src)) \<le> fuel"
    using le by (simp add: lex_init_def setinputstr_def)
  from drive_terminates [OF kw this]
  show "snd (snd (lex fuel group_re kws (setinputstr lx src))) \<noteq> OutOfFuel"
    by (auto simp: lex_def split: prod.splits outcome.splits option.splits)
next
  fix lx :: lexer and src :: string and fuel :: nat
  assume le: "length src \<le> fuel"
  have "length (inputstr (lex_init (setinputstr lx src))) -
          start (lex_init (setinputstr lx src)) \<le> length src"
    by (simp add: lex_init_def setinputstr_def)
  from drive_terminates [OF kw this]
  have "snd (snd (lex (length src) group_re kws (setinputstr lx src))) \<noteq> OutOfFuel"
    by (auto simp: lex_def split: prod.splits outcome.splits option.splits)
  from lex_more_fuel [OF this, of "fuel - length src"] le
  show "lex fuel group_re kws (setinputstr lx src) =
              lex (length src) group_re kws (setinputstr lx src)"
    by simp
qed


lemma first_match_append:
  "first_match (xs @ ys) s i =
     (case first_match xs s i of Some m \<Rightarrow> Some m | None \<Rightarrow> first_match ys s i)"
  by (induction xs) (auto split: option.splits)

lemma first_match_keyword_rules:
  "i < length kws \<Longrightarrow> group_re (fst (kws ! i)) s p = Some n \<Longrightarrow>
   \<exists>j n'. j \<le> i \<and> group_re (fst (kws ! j)) s p = Some n' \<and>
          (\<forall>l<j. group_re (fst (kws ! l)) s p = None) \<and>
          first_match (keyword_rules group_re kws) s p =
            Some (\<lparr>token = fst (snd (kws ! j)), next_state = STATE_KEEP,
                    regexp = group_re (fst (kws ! j))\<rparr>, n')"
proof (induction kws arbitrary: i)
  case Nil
  then show ?case by simp
next
  case (Cons e rest)
  obtain val tok where e: "e = (val, tok)" by (cases e) auto
  show ?case
  proof (cases "group_re val s p")
    case (Some n0)
    with e show ?thesis
      by (intro exI [of _ 0] exI [of _ n0]) (simp add: keyword_rules_def)
  next
    case None
    with Cons.prems e obtain i' where i: "i = Suc i'" by (cases i) auto
    with Cons.prems have "i' < length rest" "group_re (fst (rest ! i')) s p = Some n" by simp_all
    from Cons.IH [OF this] obtain j n' where
      j: "j \<le> i'" "group_re (fst (rest ! j)) s p = Some n'"
         "\<forall>l<j. group_re (fst (rest ! l)) s p = None"
         "first_match (keyword_rules group_re rest) s p =
            Some (\<lparr>token = fst (snd (rest ! j)), next_state = STATE_KEEP,
                    regexp = group_re (fst (rest ! j))\<rparr>, n')"
      by blast
    have all: "\<forall>l<Suc j. group_re (fst ((e # rest) ! l)) s p = None"
    proof (intro allI impI)
      fix l assume "l < Suc j"
      with j(3) None e show "group_re (fst ((e # rest) ! l)) s p = None"
        by (cases l) auto
    qed
    have fm: "first_match (keyword_rules group_re (e # rest)) s p =
            Some (\<lparr>token = fst (snd ((e # rest) ! Suc j)), next_state = STATE_KEEP,
                    regexp = group_re (fst ((e # rest) ! Suc j))\<rparr>, n')"
      using j(4) None e by (simp add: keyword_rules_def)
    from i j(1,2) all fm show ?thesis
      by (intro exI [of _ "Suc j"] exI [of _ n']) simp
  qed
qed

lemma keyword_dispatch:
  assumes st: "st = STATE_WS_SENSITIVE \<or> st = STATE_WS_INSENSITIVE"
    and i: "i < length kws"
    and m: "group_re (fst (kws ! i)) s p = Some n"
  shows "\<exists>rules j n'.
           states group_re kws st = Some rules \<and>
           j \<le> i \<and> group_re (fst (kws ! j)) s p = Some n' \<and>
           (\<forall>l<j. group_re (fst (kws ! l)) s p = None) \<and>
           first_match rules s p =
             Some (\<lparr>token = fst (snd (kws ! j)), next_state = STATE_KEEP,
                     regexp = group_re (fst (kws ! j))\<rparr>, n') \<and>
           tok_type (fst (token_from_text lx (fst (snd (kws ! j))) (take n' (drop p s)))) =
             fst (snd (kws ! j)) \<and>
           ((\<forall>l<i. group_re (fst (kws ! l)) s p = None) \<longrightarrow> j = i \<and> n' = n)"
proof -
  from first_match_keyword_rules [of i kws group_re s p n] i m obtain j n' where
    j: "j \<le> i" "group_re (fst (kws ! j)) s p = Some n'"
       "\<forall>l<j. group_re (fst (kws ! l)) s p = None"
       "first_match (keyword_rules group_re kws) s p =
            Some (\<lparr>token = fst (snd (kws ! j)), next_state = STATE_KEEP,
                    regexp = group_re (fst (kws ! j))\<rparr>, n')"
    by blast
  from st have rules: "states group_re kws st = Some (common_rules group_re kws)"
    by (auto simp: states_def)
  have fm: "first_match (common_rules group_re kws) s p =
            Some (\<lparr>token = fst (snd (kws ! j)), next_state = STATE_KEEP,
                    regexp = group_re (fst (kws ! j))\<rparr>, n')"
    using j(4) by (simp add: common_rules_def first_match_append)
  have ty: "tok_type (fst (token_from_text lx (fst (snd (kws ! j))) (take n' (drop p s)))) =
             fst (snd (kws ! j))"
    by (simp add: token_from_text_def Let_def)
  have first: "(\<forall>l<i. group_re (fst (kws ! l)) s p = None) \<longrightarrow> j = i \<and> n' = n"
  proof
    assume a: "\<forall>l<i. group_re (fst (kws ! l)) s p = None"
    with j(1,2) have "j = i" by (cases "j < i") auto
    with j(2) m show "j = i \<and> n' = n" by simp
  qed
  from rules j(1,2,3) fm ty first show ?thesis by blast
qed

section \<open>The scenario and other concrete runs\<close>

lemma scenario_run:
  "lex 32 group_literal scenario_keywords (setinputstr stale_lexer scenario_src) =
     (scenario_events, scenario_final, Finished)"
  by code_simp

lemma scenario_drive:
  "drive 32 group_literal scenario_keywords (lex_init (setinputstr stale_lexer scenario_src)) =
     (take 16 scenario_events, scenario_final\<lparr>indent := [0, 4]\<rparr>, Finished)"
  by code_simp


lemma lex_init_setinputstr:
  "lex_init (setinputstr lx src) =
     \<lparr>inputstr = src, start = 0, lineno = 1, colno = 1, lstate = start_state,
      lnext_state = None, indent = [0], logical_line_started = True\<rparr>"
  by (cases lx) (simp add: lex_init_def setinputstr_def)

lemma lex_any_lexer:
  "lex fuel group_re kws (setinputstr lx src) = lex fuel group_re kws (setinputstr lx0 src)"
  by (simp add: lex_def lex_init_setinputstr)

theorem eof_closing_tokens_witness:
  "\<exists>evs0 lx1.
     drive 32 group_literal scenario_keywords (lex_init (setinputstr stale_lexer scenario_src)) =
       (evs0, lx1, Finished) \<and>
     length scenario_src \<le> start lx1 \<and>
     map fst scenario_events =
       map fst evs0 @
       (if logical_line_started lx1 then [fst (token_from_text lx1 ''NL'' [])] else []) @
       replicate (length (indent lx1) - 1) (fst (token_from_text lx1 ''DEDENT'' [])) \<and>
     indent scenario_final = [0]"
  by (rule eof_closing_tokens [OF scenario_run])

theorem indent_stack_invariant_witness:
  "indent stale_lexer = [0, 4, 8] \<and>
   indent (lex_init (setinputstr stale_lexer scenario_src)) = [0] \<and>
   list_all (\<lambda>e. indent_ok (snd e)) scenario_events \<and> indent_ok (indent scenario_final)"
  using indent_stack_invariant [OF scenario_run]
  by (simp add: stale_lexer_def)

theorem matches_consume_input_witness:
  "snd (snd (lex 40 group_literal scenario_keywords (setinputstr stale_lexer scenario_src))) \<noteq>
     OutOfFuel \<and>
   lex 40 group_literal scenario_keywords (setinputstr stale_lexer scenario_src) =
     lex (length scenario_src) group_literal scenario_keywords (setinputstr stale_lexer scenario_src)"
proof -
  have kw: "\<forall>val \<in> fst ` set scenario_keywords.
              \<forall>s i n. group_literal val s i = Some n \<longrightarrow> 0 < n"
    by (auto simp: scenario_keywords_def group_literal_def re_literal_def split: if_splits)
  have len: "length scenario_src \<le> 40"
    by (simp add: scenario_src_def)
  from matches_consume_input [OF kw] len show ?thesis by blast
qed


text \<open>
  Claim C9, as the code has it. Lexing \<^verbatim>\<open>"abstract link foo:\n    bar := 1\n"\<close> (with
  \<open>abstract\<close> and \<open>link\<close> as keywords matched by their literal spelling, from any lexer
  object and with any number of loop passes allowed from 32 on) ends without an exception
  and yields exactly \<open>scenario_events\<close>: after the first line and its NL and NEWLINE, the
  WS of the second line, then an INDENT that the code layout raises at \<open>bar\<close> (column 5,
  stack \<open>[0, 4]\<close>), \<open>bar\<close>, WS, the TURNSTILE, one RAWSTRING whose text is \<open>" 1"\<close> (the
  rest of the line after \<open>:=\<close>, with its leading space), an NL synthesized at the
  NEWLINE that ends the line, that NEWLINE, and at the end of the input one DEDENT, after
  which the indent stack is \<open>[0]\<close>. No NL is emitted at the end of the input, since no
  logical line is open there.
\<close>

theorem scenario_tokens:
  "lex (32 + k) group_literal scenario_keywords (setinputstr lx scenario_src) =
     (scenario_events, scenario_final, Finished)"
proof -
  have "snd (snd (lex 32 group_literal scenario_keywords (setinputstr stale_lexer scenario_src))) \<noteq>
          OutOfFuel"
    by (simp add: scenario_run)
  from lex_more_fuel [OF this, of k] show ?thesis
    by (simp add: scenario_run lex_any_lexer [of _ _ _ lx _ stale_lexer])
qed

text \<open>
  The scenario as claim C9 words it does not occur: no RAWSTRING token of that pass has
  the text \<open>"1"\<close>, and no INDENT follows the TURNSTILE.
\<close>

theorem scenario_counterexample:
  "\<not> list_ex (\<lambda>t. tok_type t = ''RAWSTRING'' \<and> tok_text t = ''1'')
       (map fst (fst (lex 32 group_literal scenario_keywords
                        (setinputstr stale_lexer scenario_src)))) \<and>
   \<not> list_ex (\<lambda>t. tok_type t = ''INDENT'')
       (dropWhile (\<lambda>t. tok_type t \<noteq> ''TURNSTILE'')
          (map fst (fst (lex 32 group_literal scenario_keywords
                           (setinputstr stale_lexer scenario_src)))))"
  by (simp add: scenario_run scenario_events_def scenario_token_def)

section \<open>Keyword rules before the identifier rule\<close>





section \<open>Layout tokens and brackets\<close>

text \<open>
  Claim C4, as the code has it. A pass of the driver loop in state
  \<open>STATE_WS_INSENSITIVE\<close> yields exactly the token of the rule matched at the cursor and
  no synthesized INDENT, DEDENT or NL, whatever the text and the logical-line flag are,
  and leaves the indent stack as it was; when no rule matches it raises the error of
  \<open>handle_error\<close> and yields nothing. A rule whose next state is \<open>STATE_WS_SENSITIVE\<close>
  (RPAREN, RSBRACKET, RCBRACKET) leaves the state, whichever bracket opened it. And
  \<open>get_eof_tokens\<close>, which does not look at the state, emits its NL and its DEDENTs in
  this state as in any other.
\<close>

theorem ws_insensitive_no_layout:
  assumes st: "lstate lx = STATE_WS_INSENSITIVE"
  shows "(first_match (common_rules group_re kws) (inputstr lx) (start lx) = None \<longrightarrow>
            lex_step group_re kws lx =
              ([], lx, Some (handle_error lx (take 1 (drop (start lx) (inputstr lx)))))) \<and>
         (\<forall>rule n. first_match (common_rules group_re kws) (inputstr lx) (start lx) = Some (rule, n) \<longrightarrow>
            (\<exists>lx'. lex_step group_re kws lx =
                     ([(fst (token_from_text lx (token rule)
                               (take n (drop (start lx) (inputstr lx)))), indent lx)], lx', None) \<and>
                   indent lx' = indent lx \<and>
                   (next_state rule = STATE_WS_SENSITIVE \<longrightarrow> lstate lx' = STATE_WS_SENSITIVE))) \<and>
         (indent_ok (indent lx) \<longrightarrow>
            (\<exists>evs. get_eof_tokens lx = (evs, lx\<lparr>indent := [0]\<rparr>, None) \<and>
                   map fst evs =
                     (if logical_line_started lx
                      then [\<lparr>tok_value = '''', tok_type = ''NL'', tok_text = '''',
                             tok_start = \<lparr>line = lineno lx, column = colno lx\<rparr>,
                             tok_end = \<lparr>line = lineno lx, column = colno lx\<rparr>\<rparr>]
                      else []) @
                     replicate (length (indent lx) - 1)
                       \<lparr>tok_value = '''', tok_type = ''DEDENT'', tok_text = '''',
                        tok_start = \<lparr>line = lineno lx, column = colno lx\<rparr>,
                        tok_end = \<lparr>line = lineno lx, column = colno lx\<rparr>\<rparr>))"
proof -
  have nl: "''NL'' \<noteq> NL" and de: "''DEDENT'' \<noteq> NL" by (simp_all add: NL_def)
  have eof: "indent_ok (indent lx) \<longrightarrow>
            (\<exists>evs. get_eof_tokens lx = (evs, lx\<lparr>indent := [0]\<rparr>, None) \<and>
                   map fst evs =
                     (if logical_line_started lx
                      then [\<lparr>tok_value = '''', tok_type = ''NL'', tok_text = '''',
                             tok_start = \<lparr>line = lineno lx, column = colno lx\<rparr>,
                             tok_end = \<lparr>line = lineno lx, column = colno lx\<rparr>\<rparr>]
                      else []) @
                     replicate (length (indent lx) - 1)
                       \<lparr>tok_value = '''', tok_type = ''DEDENT'', tok_text = '''',
                        tok_start = \<lparr>line = lineno lx, column = colno lx\<rparr>,
                        tok_end = \<lparr>line = lineno lx, column = colno lx\<rparr>\<rparr>)"
  proof
    assume "indent_ok (indent lx)"
    from get_eof_tokens_ok [OF this] obtain evs where
      e: "get_eof_tokens lx = (evs, lx\<lparr>indent := [0]\<rparr>, None)"
      and m: "map fst evs =
           (if logical_line_started lx then [fst (token_from_text lx ''NL'' [])] else []) @
           replicate (length (indent lx) - 1) (fst (token_from_text lx ''DEDENT'' []))"
      by blast
    from m have "map fst evs =
                     (if logical_line_started lx
                      then [\<lparr>tok_value = '''', tok_type = ''NL'', tok_text = '''',
                             tok_start = \<lparr>line = lineno lx, column = colno lx\<rparr>,
                             tok_end = \<lparr>line = lineno lx, column = colno lx\<rparr>\<rparr>]
                      else []) @
                     replicate (length (indent lx) - 1)
                       \<lparr>tok_value = '''', tok_type = ''DEDENT'', tok_text = '''',
                        tok_start = \<lparr>line = lineno lx, column = colno lx\<rparr>,
                        tok_end = \<lparr>line = lineno lx, column = colno lx\<rparr>\<rparr>"
      by (simp add: token_from_text_empty [OF nl] token_from_text_empty [OF de])
    with e show "\<exists>evs. get_eof_tokens lx = (evs, lx\<lparr>indent := [0]\<rparr>, None) \<and>
                   map fst evs =
                     (if logical_line_started lx
                      then [\<lparr>tok_value = '''', tok_type = ''NL'', tok_text = '''',
                             tok_start = \<lparr>line = lineno lx, column = colno lx\<rparr>,
                             tok_end = \<lparr>line = lineno lx, column = colno lx\<rparr>\<rparr>]
                      else []) @
                     replicate (length (indent lx) - 1)
                       \<lparr>tok_value = '''', tok_type = ''DEDENT'', tok_text = '''',
                        tok_start = \<lparr>line = lineno lx, column = colno lx\<rparr>,
                        tok_end = \<lparr>line = lineno lx, column = colno lx\<rparr>\<rparr>"
      by (intro exI [of _ evs] conjI)
  qed
  from ws_insensitive_step [OF st, of group_re kws] eof show ?thesis
    by (intro conjI) (elim conjE, assumption)+
qed

theorem ws_insensitive_no_layout_witness:
  "(\<exists>lx'. lex_step group_literal scenario_keywords
           (sample_lexer (CHR 0x0A # ''  )'') STATE_WS_INSENSITIVE False [0, 4]) =
         ([(\<lparr>tok_value = [CHR 0x0A], tok_type = ''NEWLINE'', tok_text = [CHR 0x0A],
             tok_start = \<lparr>line = 3, column = 1\<rparr>, tok_end = \<lparr>line = 4, column = 1\<rparr>\<rparr>,
            [0, 4])], lx', None) \<and>
        indent lx' = [0, 4]) \<and>
   (\<exists>lx'. lex_step group_literal scenario_keywords
           (sample_lexer '']'' STATE_WS_INSENSITIVE True [0, 4]) =
         ([(\<lparr>tok_value = '']'', tok_type = ''RSBRACKET'', tok_text = '']'',
             tok_start = \<lparr>line = 3, column = 1\<rparr>, tok_end = \<lparr>line = 3, column = 2\<rparr>\<rparr>,
            [0, 4])], lx', None) \<and>
        indent lx' = [0, 4] \<and> lstate lx' = STATE_WS_SENSITIVE) \<and>
   (\<exists>evs. get_eof_tokens (sample_lexer '']'' STATE_WS_INSENSITIVE True [0, 4]) =
           (evs, sample_lexer '']'' STATE_WS_INSENSITIVE True [0], None) \<and>
         map fst evs =
           [\<lparr>tok_value = '''', tok_type = ''NL'', tok_text = '''',
             tok_start = \<lparr>line = 3, column = 1\<rparr>, tok_end = \<lparr>line = 3, column = 1\<rparr>\<rparr>,
            \<lparr>tok_value = '''', tok_type = ''DEDENT'', tok_text = '''',
             tok_start = \<lparr>line = 3, column = 1\<rparr>, tok_end = \<lparr>line = 3, column = 1\<rparr>\<rparr>])"
proof -
  let ?L = "sample_lexer (CHR 0x0A # ''  )'') STATE_WS_INSENSITIVE False [0, 4]"
  let ?M = "sample_lexer '']'' STATE_WS_INSENSITIVE True [0, 4]"
  have m: "first_match (common_rules group_literal scenario_keywords) (inputstr ?L) (start ?L) =
      Some (\<lparr>token = ''NEWLINE'', next_state = STATE_KEEP, regexp = re_NEWLINE\<rparr>, 1)"
    by (simp add: sample_lexer_def common_rules_def keyword_rules_def scenario_keywords_def
          pattern_defs char_class_defs)
  have m2: "first_match (common_rules group_literal scenario_keywords) (inputstr ?M) (start ?M) =
      Some (\<lparr>token = ''RSBRACKET'', next_state = STATE_WS_SENSITIVE,
              regexp = re_literal '']''\<rparr>, 1)"
    by (simp add: sample_lexer_def common_rules_def keyword_rules_def scenario_keywords_def
          pattern_defs char_class_defs)
  have st: "lstate ?L = STATE_WS_INSENSITIVE" and st2: "lstate ?M = STATE_WS_INSENSITIVE"
    by (simp_all add: sample_lexer_def)
  from ws_insensitive_no_layout [OF st, of group_literal scenario_keywords] m
  have a: "\<exists>lx'. lex_step group_literal scenario_keywords ?L =
         ([(\<lparr>tok_value = [CHR 0x0A], tok_type = ''NEWLINE'', tok_text = [CHR 0x0A],
             tok_start = \<lparr>line = 3, column = 1\<rparr>, tok_end = \<lparr>line = 4, column = 1\<rparr>\<rparr>,
            [0, 4])], lx', None) \<and>
        indent lx' = [0, 4]"
    by (simp add: sample_lexer_def token_from_text_def NL_def Let_def)
  from ws_insensitive_no_layout [OF st2, of group_literal scenario_keywords] m2
  have b: "(\<exists>lx'. lex_step group_literal scenario_keywords ?M =
         ([(\<lparr>tok_value = '']'', tok_type = ''RSBRACKET'', tok_text = '']'',
             tok_start = \<lparr>line = 3, column = 1\<rparr>, tok_end = \<lparr>line = 3, column = 2\<rparr>\<rparr>,
            [0, 4])], lx', None) \<and>
        indent lx' = [0, 4] \<and> lstate lx' = STATE_WS_SENSITIVE) \<and>
   (\<exists>evs. get_eof_tokens ?M = (evs, sample_lexer '']'' STATE_WS_INSENSITIVE True [0], None) \<and>
         map fst evs =
           [\<lparr>tok_value = '''', tok_type = ''NL'', tok_text = '''',
             tok_start = \<lparr>line = 3, column = 1\<rparr>, tok_end = \<lparr>line = 3, column = 1\<rparr>\<rparr>,
            \<lparr>tok_value = '''', tok_type = ''DEDENT'', tok_text = '''',
             tok_start = \<lparr>line = 3, column = 1\<rparr>, tok_end = \<lparr>line = 3, column = 1\<rparr>\<rparr>])"
    by (simp add: sample_lexer_def token_from_text_def NL_def MULTILINE_TOKENS_def Let_def
          indent_ok_def)
  from a b show ?thesis by (intro conjI) (elim conjE, assumption)+
qed

text \<open>
  Claim C4 as worded does not hold. On \<^verbatim>\<open>"a:\n  b (\n"\<close> the loop ends in state
  \<open>STATE_WS_INSENSITIVE\<close> and \<open>get_eof_tokens\<close> then emits an NL and a DEDENT. On
  \<^verbatim>\<open>"a (\n  b (c)\n    d)\n"\<close> the inner closing bracket leaves the state, so that an NL
  and an INDENT are synthesized before the outer bracket is closed.
\<close>

theorem ws_insensitive_counterexample:
  "lstate (fst (snd (drive 9 group_literal []
                      (lex_init (setinputstr stale_lexer paren_src))))) = STATE_WS_INSENSITIVE \<and>
   snd (snd (drive 9 group_literal [] (lex_init (setinputstr stale_lexer paren_src)))) = Finished \<and>
   map (\<lambda>e. tok_type (fst e))
     (fst (get_eof_tokens (fst (snd (drive 9 group_literal []
                                       (lex_init (setinputstr stale_lexer paren_src))))))) =
     [''NL'', ''DEDENT''] \<and>
   map (\<lambda>e. tok_type (fst e)) (fst (lex 9 group_literal [] (setinputstr stale_lexer paren_src))) =
     [''IDENT'', ''COLON'', ''NL'', ''NEWLINE'', ''WS'', ''INDENT'', ''IDENT'', ''WS'', ''LPAREN'',
      ''NEWLINE'', ''NL'', ''DEDENT''] \<and>
   map (\<lambda>e. tok_type (fst e)) (fst (lex 19 group_literal [] (setinputstr stale_lexer nested_src))) =
     [''IDENT'', ''WS'', ''LPAREN'', ''NEWLINE'', ''WS'', ''IDENT'', ''WS'', ''LPAREN'', ''IDENT'',
      ''RPAREN'', ''NL'', ''NEWLINE'', ''WS'', ''INDENT'', ''IDENT'', ''RPAREN'', ''NL'', ''NEWLINE'',
      ''DEDENT'']"
  by code_simp

section \<open>The container predicate\<close>

lemma lru_cache_ok:
  assumes ok: "cache_ok f cache"
  shows "fst (lru_cache maxsize f cache cls) = f cls \<and>
         cache_ok f (snd (lru_cache maxsize f cache cls))"
proof (cases "map_of cache cls")
  case None
  have "set (take maxsize ((cls, f cls) # cache)) \<subseteq> set ((cls, f cls) # cache)"
    by (rule set_take_subset)
  with ok have "cache_ok f (take maxsize ((cls, f cls) # cache))"
    unfolding cache_ok_def list_all_iff by fastforce
  with None show ?thesis by (simp add: lru_cache_def)
next
  case (Some v)
  then have "(cls, v) \<in> set cache" by (rule map_of_SomeD)
  with ok have v: "v = f cls" by (auto simp: cache_ok_def list_all_iff)
  have "cache_ok f ((cls, v) # filter (\<lambda>e. fst e \<noteq> cls) cache)"
    using ok v by (auto simp: cache_ok_def list_all_iff)
  with Some v show ?thesis by (simp add: lru_cache_def)
qed

text \<open>
  Claim C10, as the code has it. While the cached results agree with the class hierarchy
  (as they do from the empty caches on, for as long as no class changes its relation to
  the six classes after a result for it has been cached), \<open>is_container(obj)\<close> is true
  if and only if the class of \<open>obj\<close> is a subclass of \<open>Container\<close> and of \<open>Iterable\<close> and
  of none of \<open>str\<close>, \<open>bytes\<close>, \<open>bytearray\<close> and \<open>memoryview\<close>; so it is false for every
  instance of \<open>str\<close> and of \<open>bytes\<close>, whatever else their classes are subclasses of. The
  caches still agree with the hierarchy after the call.
\<close>

theorem is_container_iff:
  assumes ok: "caches_ok issubclass cs"
  shows "fst (is_container issubclass class_of cs obj) =
           (issubclass (class_of obj) Container \<and> issubclass (class_of obj) Iterable \<and>
            \<not> issubclass (class_of obj) Str \<and> \<not> issubclass (class_of obj) Bytes \<and>
            \<not> issubclass (class_of obj) Bytearray \<and> \<not> issubclass (class_of obj) Memoryview) \<and>
         (issubclass (class_of obj) Str \<or> issubclass (class_of obj) Bytes \<longrightarrow>
            \<not> fst (is_container issubclass class_of cs obj)) \<and>
         caches_ok issubclass (snd (is_container issubclass class_of cs obj)) \<and>
         caches_ok issubclass \<lparr>container_cache = [], iterable_cache = []\<rparr>"
proof -
  let ?cls = "class_of obj"
  from ok have c: "cache_ok (is_container_type_wrapped issubclass) (container_cache cs)"
    and i: "cache_ok (is_iterable_type_wrapped issubclass) (iterable_cache cs)"
    by (simp_all add: caches_ok_def)
  obtain v1 c1 where l1: "lru_cache 1024 (is_container_type_wrapped issubclass)
      (container_cache cs) ?cls = (v1, c1)"
    by (cases "lru_cache 1024 (is_container_type_wrapped issubclass) (container_cache cs) ?cls")
       auto
  obtain v2 c2 where l2: "lru_cache 1024 (is_iterable_type_wrapped issubclass)
      (iterable_cache cs) ?cls = (v2, c2)"
    by (cases "lru_cache 1024 (is_iterable_type_wrapped issubclass) (iterable_cache cs) ?cls")
       auto
  from lru_cache_ok [OF c, of 1024 ?cls] l1
  have r1: "v1 = is_container_type_wrapped issubclass ?cls"
    "cache_ok (is_container_type_wrapped issubclass) c1" by simp_all
  from lru_cache_ok [OF i, of 1024 ?cls] l2
  have r2: "v2 = is_iterable_type_wrapped issubclass ?cls"
    "cache_ok (is_iterable_type_wrapped issubclass) c2" by simp_all
  have res: "is_container issubclass class_of cs obj =
      (if v1 then (v2, cs\<lparr>container_cache := c1, iterable_cache := c2\<rparr>)
       else (False, cs\<lparr>container_cache := c1\<rparr>))"
    using l1 l2
    by (simp add: is_container_def is_container_type_cached_def is_iterable_type_cached_def
          Let_def)
  have empty: "caches_ok issubclass \<lparr>container_cache = [], iterable_cache = []\<rparr>"
    by (simp add: caches_ok_def cache_ok_def)
  show ?thesis
    using res r1 r2 i empty
    by (auto simp: caches_ok_def is_container_type_wrapped_def is_iterable_type_wrapped_def
          issubclass_any_def)
qed

theorem is_container_iff_witness:
  "builtin_issubclass Str Container \<and> builtin_issubclass Str Iterable \<and>
   \<not> fst (is_container builtin_issubclass (\<lambda>s :: string. Str)
            \<lparr>container_cache = [], iterable_cache = []\<rparr> ''abc'') \<and>
   fst (is_container builtin_issubclass (\<lambda>xs :: nat list. Class 0)
            \<lparr>container_cache = [(Str, False)], iterable_cache = [(Str, True)]\<rparr> [1, 2])"
  using is_container_iff [of builtin_issubclass "\<lparr>container_cache = [], iterable_cache = []\<rparr>"
          "\<lambda>s :: string. Str" "''abc''"]
        is_container_iff [of builtin_issubclass
          "\<lparr>container_cache = [(Str, False)], iterable_cache = [(Str, True)]\<rparr>"
          "\<lambda>xs :: nat list. Class 0" "[1, 2]"]
  by (simp add: builtin_issubclass_def caches_ok_def cache_ok_def
        is_container_type_wrapped_def is_iterable_type_wrapped_def issubclass_any_def)

text \<open>
  Claim C10 as worded does not hold of the cached functions: a call on an instance of
  class 7 stores \<open>False\<close> for the class; once the class is registered with \<open>Container\<close>
  and \<open>Iterable\<close> it is a subclass of both and of none of the four built-in types, and
  \<open>is_container\<close> still answers \<open>False\<close> from the cache.
\<close>

theorem is_container_counterexample:
  "registered_issubclass (Class 7) Container \<and> registered_issubclass (Class 7) Iterable \<and>
   \<not> registered_issubclass (Class 7) Str \<and> \<not> registered_issubclass (Class 7) Bytes \<and>
   \<not> registered_issubclass (Class 7) Bytearray \<and>
   \<not> registered_issubclass (Class 7) Memoryview \<and>
   container_cache caches_before_register = [(Class 7, False)] \<and>
   \<not> fst (is_container registered_issubclass (\<lambda>obj :: unit. Class 7)
            caches_before_register ())"
  by (simp add: registered_issubclass_def abc_register_def builtin_issubclass_def
        caches_before_register_def is_container_def is_container_type_cached_def
        is_iterable_type_cached_def lru_cache_def is_container_type_wrapped_def
        is_iterable_type_wrapped_def issubclass_any_def)

end
